theory Spec2Isabelle
  imports Complex_Main
begin

section \<open>JavaScript numbers\<close>

text \<open>
  The calculator is three successive versions of one React page. Every version reads
  text fields, turns each into a number with \<^verbatim>\<open>Number(v)\<close>, and computes a
  result object inside \<^verbatim>\<open>useMemo\<close>: a pure function of the current inputs.

  A JavaScript number is NaN, one of the two infinities, or a finite value. The program
  is embedded twice. In the first embedding finite values are reals and finite arithmetic
  is exact: rounding to the nearest double, overflow and underflow are not part of it, a
  decimal literal of the source stands for its decimal value, and the two zeros are one
  (read as the positive zero where a sign is needed). The special values follow IEEE 754:
  NaN is absorbing and every comparison with NaN is false. The formulas, the validity
  rules and the conversions are compared with the specification in this embedding. The
  second embedding, in the section on rounded arithmetic, rounds every literal and every
  operation to a double; the claims on the sign, the finiteness and the monotonicity of
  the computed weight are about that one.

  Names are the source's. Where two versions name different functions alike
  (\<^verbatim>\<open>round\<close>, \<^verbatim>\<open>square\<close>) the version is appended; \<^verbatim>\<open>num\<close>,
  \<^verbatim>\<open>clampNonNegative\<close> and \<^verbatim>\<open>IN_TO_MM\<close> are the same in every version that has
  them.
\<close>

datatype jsnum = NaN | PInf | NInf | Fin real

fun isFinite :: "jsnum \<Rightarrow> bool" where
  "isFinite (Fin x) = True"
| "isFinite _ = False"

instantiation jsnum :: ord
begin

fun less_jsnum :: "jsnum \<Rightarrow> jsnum \<Rightarrow> bool" where
  "less_jsnum (Fin a) (Fin b) = (a < b)"
| "less_jsnum (Fin a) PInf = True"
| "less_jsnum NInf (Fin b) = True"
| "less_jsnum NInf PInf = True"
| "less_jsnum _ _ = False"

fun less_eq_jsnum :: "jsnum \<Rightarrow> jsnum \<Rightarrow> bool" where
  "less_eq_jsnum (Fin a) (Fin b) = (a \<le> b)"
| "less_eq_jsnum (Fin a) PInf = True"
| "less_eq_jsnum NInf (Fin b) = True"
| "less_eq_jsnum NInf PInf = True"
| "less_eq_jsnum NInf NInf = True"
| "less_eq_jsnum PInf PInf = True"
| "less_eq_jsnum _ _ = False"

instance ..

end

instantiation jsnum :: plus
begin

fun plus_jsnum :: "jsnum \<Rightarrow> jsnum \<Rightarrow> jsnum" where
  "plus_jsnum (Fin a) (Fin b) = Fin (a + b)"
| "plus_jsnum NaN _ = NaN"
| "plus_jsnum _ NaN = NaN"
| "plus_jsnum PInf NInf = NaN"
| "plus_jsnum NInf PInf = NaN"
| "plus_jsnum PInf _ = PInf"
| "plus_jsnum _ PInf = PInf"
| "plus_jsnum NInf _ = NInf"
| "plus_jsnum _ NInf = NInf"

instance ..

end

instantiation jsnum :: minus
begin

fun minus_jsnum :: "jsnum \<Rightarrow> jsnum \<Rightarrow> jsnum" where
  "minus_jsnum (Fin a) (Fin b) = Fin (a - b)"
| "minus_jsnum NaN _ = NaN"
| "minus_jsnum _ NaN = NaN"
| "minus_jsnum PInf PInf = NaN"
| "minus_jsnum NInf NInf = NaN"
| "minus_jsnum PInf _ = PInf"
| "minus_jsnum _ NInf = PInf"
| "minus_jsnum NInf _ = NInf"
| "minus_jsnum _ PInf = NInf"

instance ..

end

text \<open>The sign of an infinite product or quotient: an infinity times a finite factor.\<close>

fun scale_inf :: "bool \<Rightarrow> real \<Rightarrow> jsnum" where
  "scale_inf pos a =
     (if a = 0 then NaN else if (0 < a) = pos then PInf else NInf)"

instantiation jsnum :: times
begin

fun times_jsnum :: "jsnum \<Rightarrow> jsnum \<Rightarrow> jsnum" where
  "times_jsnum (Fin a) (Fin b) = Fin (a * b)"
| "times_jsnum NaN _ = NaN"
| "times_jsnum _ NaN = NaN"
| "times_jsnum PInf (Fin b) = scale_inf True b"
| "times_jsnum NInf (Fin b) = scale_inf False b"
| "times_jsnum (Fin a) PInf = scale_inf True a"
| "times_jsnum (Fin a) NInf = scale_inf False a"
| "times_jsnum PInf PInf = PInf"
| "times_jsnum NInf NInf = PInf"
| "times_jsnum PInf NInf = NInf"
| "times_jsnum NInf PInf = NInf"

instance ..

end

instantiation jsnum :: inverse
begin

fun divide_jsnum :: "jsnum \<Rightarrow> jsnum \<Rightarrow> jsnum" where
  "divide_jsnum (Fin a) (Fin b) =
     (if b = 0 then scale_inf True a else Fin (a / b))"
| "divide_jsnum NaN _ = NaN"
| "divide_jsnum _ NaN = NaN"
| "divide_jsnum (Fin a) _ = Fin 0"
| "divide_jsnum PInf (Fin b) = (if 0 \<le> b then PInf else NInf)"
| "divide_jsnum NInf (Fin b) = (if 0 \<le> b then NInf else PInf)"
| "divide_jsnum PInf _ = NaN"
| "divide_jsnum NInf _ = NaN"

definition inverse_jsnum :: "jsnum \<Rightarrow> jsnum" where
  "inverse_jsnum (x::jsnum) = divide (Fin 1) x"

instance ..

end

text \<open>
  \<^verbatim>\<open>Math.PI\<close> is the double nearest to \<open>\<pi>\<close>; with exact arithmetic it is \<open>\<pi>\<close>.
\<close>

definition Math_PI :: jsnum where
  "Math_PI = Fin pi"

section \<open>Parsing helpers of the first and second version\<close>

text \<open>
  \<^verbatim>\<open>Number(v)\<close> is the language's own conversion of a text to a number. The
  embedding starts from its value: any finite number, NaN for text that is not a
  numeric literal, an infinity for the text \<^verbatim>\<open>Infinity\<close>, and zero for the empty
  text. The argument \<open>x\<close> of \<open>num\<close> and \<open>n\<close> below is that value.

  \<^verbatim>\<open>function num(v: string) { const n = Number(v); return Number.isFinite(n) ? n : NaN; }\<close>
  \<^verbatim>\<open>function clampNonNegative(n: number) { return Number.isFinite(n) && n >= 0 ? n : NaN; }\<close>
\<close>

definition num :: "jsnum \<Rightarrow> jsnum" where
  "num x = (if isFinite x then x else NaN)"

definition clampNonNegative :: "jsnum \<Rightarrow> jsnum" where
  "clampNonNegative n = (if isFinite n \<and> n \<ge> Fin 0 then n else NaN)"

datatype LenUnit = Ft | M

text \<open>
  The result object of the first two versions. Its \<^verbatim>\<open>note\<close> field, a sentence shown
  to the user, is not modelled.
\<close>

record calc =
  ok :: bool
  unitLabel :: string
  wPerUnit :: jsnum
  total :: jsnum

section \<open>First version: shortcut formulas on the raw inputs\<close>

text \<open>
  \<^verbatim>\<open>round\<close> of the first version (src/app/page.tsx, lines 50 to 84): outer diameter
  and thickness in inches, used as they are.
\<close>

definition round_v1 :: "jsnum \<Rightarrow> jsnum \<Rightarrow> jsnum \<Rightarrow> LenUnit \<Rightarrow> calc" where
  "round_v1 odIn thIn roundLen roundLenUnit =
     (let od = clampNonNegative (num odIn);
          t = clampNonNegative (num thIn);
          L = clampNonNegative (num roundLen);
          validDims = (isFinite od \<and> isFinite t \<and> t > Fin 0 \<and> od > t)
      in if \<not> validDims then
           \<lparr>ok = False,
            unitLabel = (if roundLenUnit = Ft then ''kg/ft'' else ''kg/m''),
            wPerUnit = NaN, total = NaN\<rparr>
         else
           (let w = (if roundLenUnit = Ft then Fin 10.69 * (od - t) * t
                     else Fin 24.66 * (od - t) * t);
                hasLen = (isFinite L \<and> L > Fin 0);
                tot = (if hasLen then w * L else NaN)
            in \<lparr>ok = True,
                unitLabel = (if roundLenUnit = Ft then ''kg/ft'' else ''kg/m''),
                wPerUnit = w, total = tot\<rparr>))"

text \<open>\<^verbatim>\<open>square\<close> of the first version (lines 86 to 118): side and thickness in mm.\<close>

definition square_v1 :: "jsnum \<Rightarrow> jsnum \<Rightarrow> jsnum \<Rightarrow> calc" where
  "square_v1 sideMm thMm sqLenM =
     (let S = clampNonNegative (num sideMm);
          t = clampNonNegative (num thMm);
          L = clampNonNegative (num sqLenM);
          validDims = (isFinite S \<and> isFinite t \<and> t > Fin 0 \<and> S > t)
      in if \<not> validDims then
           \<lparr>ok = False, unitLabel = ''kg/m'', wPerUnit = NaN, total = NaN\<rparr>
         else
           (let w = (Fin 4 * t * (S - t) * Fin 7.85) / Fin 1000;
                hasLen = (isFinite L \<and> L > Fin 0);
                tot = (if hasLen then w * L else NaN)
            in \<lparr>ok = True, unitLabel = ''kg/m'', wPerUnit = w, total = tot\<rparr>))"

section \<open>Second version: cross-section area times density\<close>

definition IN_TO_MM :: jsnum where
  "IN_TO_MM = Fin 25.4"

definition FT_TO_MM :: jsnum where
  "FT_TO_MM = Fin 304.8"

definition M_TO_MM :: jsnum where
  "M_TO_MM = Fin 1000"

text \<open>\<^verbatim>\<open>const STEEL_DENSITY_KG_PER_MM3 = 7.85e-6;\<close>\<close>

definition STEEL_DENSITY_KG_PER_MM3 :: jsnum where
  "STEEL_DENSITY_KG_PER_MM3 = Fin (7.85 / 10 ^ 6)"

definition inchesToMm :: "jsnum \<Rightarrow> jsnum" where
  "inchesToMm xIn = xIn * IN_TO_MM"

definition areaRoundMm2 :: "jsnum \<Rightarrow> jsnum \<Rightarrow> jsnum" where
  "areaRoundMm2 odMm tMm =
     (let idMm = odMm - Fin 2 * tMm
      in if \<not> (idMm > Fin 0) then NaN
         else (Math_PI / Fin 4) * (odMm * odMm - idMm * idMm))"

definition areaSquareTubeMm2 :: "jsnum \<Rightarrow> jsnum \<Rightarrow> jsnum" where
  "areaSquareTubeMm2 sideMm tMm =
     (let inner = sideMm - Fin 2 * tMm
      in if \<not> (inner > Fin 0) then NaN
         else sideMm * sideMm - inner * inner)"

definition kgPerUnitFromArea :: "jsnum \<Rightarrow> LenUnit \<Rightarrow> jsnum" where
  "kgPerUnitFromArea areaMm2 unit =
     (let lenMm = (if unit = Ft then FT_TO_MM else M_TO_MM);
          volMm3 = areaMm2 * lenMm
      in volMm3 * STEEL_DENSITY_KG_PER_MM3)"

text \<open>
  \<^verbatim>\<open>round\<close> of the second version (lines 419 to 456): outer diameter in inches,
  thickness in mm.
\<close>

definition round_v2 :: "jsnum \<Rightarrow> jsnum \<Rightarrow> jsnum \<Rightarrow> LenUnit \<Rightarrow> calc" where
  "round_v2 odIn thMmRound roundLen roundLenUnit =
     (let odInVal = clampNonNegative (num odIn);
          tMm = clampNonNegative (num thMmRound);
          L = clampNonNegative (num roundLen);
          odMm = (if isFinite odInVal then inchesToMm odInVal else NaN);
          validDims = (isFinite odMm \<and> isFinite tMm \<and> tMm > Fin 0 \<and> odMm > Fin 2 * tMm)
      in if \<not> validDims then
           \<lparr>ok = False,
            unitLabel = (if roundLenUnit = Ft then ''kg/ft'' else ''kg/m''),
            wPerUnit = NaN, total = NaN\<rparr>
         else
           (let area = areaRoundMm2 odMm tMm;
                w = kgPerUnitFromArea area roundLenUnit;
                hasLen = (isFinite L \<and> L > Fin 0);
                tot = (if hasLen then w * L else NaN)
            in \<lparr>ok = True,
                unitLabel = (if roundLenUnit = Ft then ''kg/ft'' else ''kg/m''),
                wPerUnit = w, total = tot\<rparr>))"

text \<open>\<^verbatim>\<open>square\<close> of the second version (lines 458 to 494): side in inches, thickness in mm.\<close>

definition square_v2 :: "jsnum \<Rightarrow> jsnum \<Rightarrow> jsnum \<Rightarrow> LenUnit \<Rightarrow> calc" where
  "square_v2 sideIn thMmSq sqLen sqLenUnit =
     (let sideInVal = clampNonNegative (num sideIn);
          tMm = clampNonNegative (num thMmSq);
          L = clampNonNegative (num sqLen);
          sideMm = (if isFinite sideInVal then inchesToMm sideInVal else NaN);
          validDims = (isFinite sideMm \<and> isFinite tMm \<and> tMm > Fin 0 \<and> sideMm > Fin 2 * tMm)
      in if \<not> validDims then
           \<lparr>ok = False,
            unitLabel = (if sqLenUnit = Ft then ''kg/ft'' else ''kg/m''),
            wPerUnit = NaN, total = NaN\<rparr>
         else
           (let area = areaSquareTubeMm2 sideMm tMm;
                w = kgPerUnitFromArea area sqLenUnit;
                hasLen = (isFinite L \<and> L > Fin 0);
                tot = (if hasLen then w * L else NaN)
            in \<lparr>ok = True,
                unitLabel = (if sqLenUnit = Ft then ''kg/ft'' else ''kg/m''),
                wPerUnit = w, total = tot\<rparr>))"

section \<open>Third version: three shapes, one unit selector\<close>

text \<open>
  The third version (src/unnamed/part\_000) has a shape selector with three values and
  one unit selector for every dimension; the length is always in metres.
  \<^verbatim>\<open>function n(v: string) { const x = Number(v); return Number.isFinite(x) ? x : NaN; }\<close>
\<close>

datatype PipeType = Round | Square | Rectangle

datatype Unit = Mm | In

definition n :: "jsnum \<Rightarrow> jsnum" where
  "n x = (if isFinite x then x else NaN)"

text \<open>\<^verbatim>\<open>const mm = (v: number) => (unit === "in" ? v * IN_TO_MM : v);\<close>\<close>

definition mm :: "Unit \<Rightarrow> jsnum \<Rightarrow> jsnum" where
  "mm unit v = (if unit = In then v * IN_TO_MM else v)"

text \<open>
  The result object of the third version; its fields are \<^verbatim>\<open>ok\<close>, \<^verbatim>\<open>wPerM\<close> and
  \<^verbatim>\<open>total\<close> in the source.
\<close>

record pipe_result =
  ok3 :: bool
  wPerM :: jsnum
  total3 :: jsnum

definition invalid :: pipe_result where
  "invalid = \<lparr>ok3 = False, wPerM = NaN, total3 = NaN\<rparr>"

text \<open>
  \<^verbatim>\<open>result\<close> (lines 32 to 73). The source runs three \<^verbatim>\<open>if (pipeType === ...)\<close>
  blocks in a row over a variable \<^verbatim>\<open>wPerM\<close> that starts as NaN; each block may return
  \<^verbatim>\<open>invalid()\<close> early. A block's outcome is \<open>None\<close> for the early return and
  \<open>Some\<close> of the variable's value otherwise.
\<close>

definition result ::
  "PipeType \<Rightarrow> Unit \<Rightarrow> jsnum \<Rightarrow> jsnum \<Rightarrow> jsnum \<Rightarrow> jsnum \<Rightarrow> jsnum \<Rightarrow> jsnum \<Rightarrow> pipe_result" where
  "result pipeType unit od side width height thickness length' =
     (let T = mm unit (n thickness);
          L = n length'
      in if \<not> (T > Fin 0) then invalid
         else
           (case (if pipeType = Round then
                    (let OD = mm unit (n od)
                     in if \<not> (OD > Fin 2 * T) then None
                        else Some (Fin 0.02466 * (OD - T) * T))
                  else Some NaN) of
              None \<Rightarrow> invalid
            | Some w1 \<Rightarrow>
           (case (if pipeType = Square then
                    (let S = mm unit (n side)
                     in if \<not> (S > Fin 2 * T) then None
                        else Some ((Fin 4 * T * (S - T) * Fin 7.85) / Fin 1000))
                  else Some w1) of
              None \<Rightarrow> invalid
            | Some w2 \<Rightarrow>
           (case (if pipeType = Rectangle then
                    (let W = mm unit (n width);
                         H = mm unit (n height)
                     in if \<not> (W > Fin 2 * T \<and> H > Fin 2 * T) then None
                        else Some ((Fin 2 * T * ((W + H) - Fin 2 * T) * Fin 7.85) / Fin 1000))
                  else Some w2) of
              None \<Rightarrow> invalid
            | Some w3 \<Rightarrow>
                (let tot = (if isFinite L \<and> L > Fin 0 then w3 * L else NaN)
                 in \<lparr>ok3 = True, wPerM = w3, total3 = tot\<rparr>)))))"

section \<open>The specification's rules and formulas\<close>

text \<open>
  The definitions of this section follow the words of the specification, not the code;
  the theorems below compare the code with them. A profile carries its dimensions after
  parsing and normalisation to millimetres, so a dimension may be NaN.
\<close>

text \<open>
  Section 3: a profile is round (outer diameter), square (outer side) or rectangular
  (outer width and height); every variant also carries the wall thickness, last.
\<close>

datatype Profile = RoundTube jsnum jsnum | SquareTube jsnum jsnum | RectangleTube jsnum jsnum jsnum

text \<open>
  Section 4.2: valid iff thickness \<open>> 0\<close> and the outer dimension \<open>> 2 \<times>\<close> thickness;
  a NaN anywhere makes the profile invalid.
\<close>

fun spec_feasible :: "jsnum \<Rightarrow> jsnum \<Rightarrow> bool" where
  "spec_feasible (Fin outer) (Fin t) = (0 < t \<and> 2 * t < outer)"
| "spec_feasible _ _ = False"

fun spec_valid :: "Profile \<Rightarrow> bool" where
  "spec_valid (RoundTube OD T) = spec_feasible OD T"
| "spec_valid (SquareTube S T) = spec_feasible S T"
| "spec_valid (RectangleTube W H T) = (spec_feasible W T \<and> spec_feasible H T)"

text \<open>
  Section 4.4: the total is weight per unit times run length when the run length is
  present, finite and strictly positive, and NaN otherwise. \<open>L\<close> is the value of the
  length field (zero for an empty field).
\<close>

definition spec_totalWeight :: "jsnum \<Rightarrow> jsnum \<Rightarrow> jsnum" where
  "spec_totalWeight w L = (case L of Fin l \<Rightarrow> if 0 < l then w * Fin l else NaN | _ \<Rightarrow> NaN)"

text \<open>
  Sections 3, 4.1, 4.3 and 4.4: the length of a run unit in millimetres, the density of
  steel in kg per cubic millimetre, the metal area of each shape in square millimetres
  and the weight per run unit.
\<close>

definition spec_lengthFactorMm :: "LenUnit \<Rightarrow> real" where
  "spec_lengthFactorMm unit = (case unit of Ft \<Rightarrow> 304.8 | M \<Rightarrow> 1000)"

definition spec_density :: real where
  "spec_density = 7.85 / 10 ^ 6"


definition spec_areaSquare :: "real \<Rightarrow> real \<Rightarrow> real" where
  "spec_areaSquare S T = S\<^sup>2 - (S - 2 * T)\<^sup>2"

definition spec_areaRectangle :: "real \<Rightarrow> real \<Rightarrow> real \<Rightarrow> real" where
  "spec_areaRectangle W H T = W * H - (W - 2 * T) * (H - 2 * T)"

definition spec_weightPerRunUnit :: "real \<Rightarrow> LenUnit \<Rightarrow> real" where
  "spec_weightPerRunUnit areaMm2 runUnit = areaMm2 * spec_lengthFactorMm runUnit * spec_density"

text \<open>A profile with a NaN among its dimensions.\<close>

fun has_nan :: "Profile \<Rightarrow> bool" where
  "has_nan (RoundTube OD T) = (OD = NaN \<or> T = NaN)"
| "has_nan (SquareTube S T) = (S = NaN \<or> T = NaN)"
| "has_nan (RectangleTube W H T) = (W = NaN \<or> H = NaN \<or> T = NaN)"

text \<open>
  Section 8: equality of two weights within a relative tolerance of \<open>10\<^sup>-\<^sup>9\<close>. A NaN is
  within tolerance of nothing.
\<close>

fun within_tolerance :: "jsnum \<Rightarrow> jsnum \<Rightarrow> bool" where
  "within_tolerance (Fin a) (Fin b) = (\<bar>a - b\<bar> \<le> \<bar>b\<bar> / 10 ^ 9)"
| "within_tolerance _ _ = False"

section \<open>What each version validates\<close>

text \<open>
  The rule of the first version on its parsed dimensions, the \<^verbatim>\<open>validDims\<close> of
  \<^verbatim>\<open>round\<close> and \<^verbatim>\<open>square\<close> there
  (\<^verbatim>\<open>// validate: OD must be > T and T > 0\<close>).
\<close>

fun v1_accepts :: "jsnum \<Rightarrow> jsnum \<Rightarrow> bool" where
  "v1_accepts (Fin outer) (Fin t) = (0 < t \<and> t < outer)"
| "v1_accepts _ _ = False"

text \<open>
  The profile the second and third version validate: the dimensions as the code parses
  and normalises them, before any check. The second version takes the outer dimension in inches and
  the thickness in millimetres; the third applies its one unit selector to every
  dimension of the selected shape.
\<close>

definition normalized_round_v2 :: "jsnum \<Rightarrow> jsnum \<Rightarrow> Profile" where
  "normalized_round_v2 odIn thMmRound =
     RoundTube (inchesToMm (clampNonNegative (num odIn))) (clampNonNegative (num thMmRound))"

definition normalized_square_v2 :: "jsnum \<Rightarrow> jsnum \<Rightarrow> Profile" where
  "normalized_square_v2 sideIn thMmSq =
     SquareTube (inchesToMm (clampNonNegative (num sideIn))) (clampNonNegative (num thMmSq))"

definition normalized_v3 ::
  "PipeType \<Rightarrow> Unit \<Rightarrow> jsnum \<Rightarrow> jsnum \<Rightarrow> jsnum \<Rightarrow> jsnum \<Rightarrow> jsnum \<Rightarrow> Profile" where
  "normalized_v3 pipeType unit od side width height thickness =
     (case pipeType of
        Round \<Rightarrow> RoundTube (mm unit (n od)) (mm unit (n thickness))
      | Square \<Rightarrow> SquareTube (mm unit (n side)) (mm unit (n thickness))
      | Rectangle \<Rightarrow>
          RectangleTube (mm unit (n width)) (mm unit (n height)) (mm unit (n thickness)))"

section \<open>Rounded arithmetic\<close>

text \<open>
  Whether a computed weight is zero, infinite or NaN, and whether it grows with a
  dimension, is decided by the rounding of each operation. This section gives the
  arithmetic of the source as it runs: every number is an IEEE 754 binary64 value and
  every operation rounds its exact result to the nearest such value, ties to the even
  significand, with gradual underflow and with overflow to an infinity. The two zeros
  are one, as above; no result of the calculator depends on the sign of a zero.

  \<open>rne q\<close> is the integer nearest to \<open>q\<close>, the even one of two equally near.
\<close>

definition rne :: "real \<Rightarrow> int" where
  "rne q = (let f = \<lfloor>q\<rfloor>; d = q - of_int f
            in if d < 1 / 2 then f else if 1 / 2 < d then f + 1
               else if even f then f else f + 1)"

text \<open>
  A nonzero \<open>x\<close> lies in the binade \<open>2\<^sup>e \<le> |x| < 2\<^sup>e\<^sup>+\<^sup>1\<close> with \<open>e = binade x\<close>. The doubles of
  that binade are the multiples of \<open>2\<^sup>e\<^sup>-\<^sup>5\<^sup>2\<close> (53 significant bits), and below the
  smallest normal binade, \<open>e = -1022\<close>, the multiples of \<open>2\<^sup>-\<^sup>1\<^sup>0\<^sup>7\<^sup>4\<close> (the subnormal numbers).
  The binade is the floor of a logarithm; for a given number it is read off two
  comparisons with powers of two (lemma \<open>binade_eqI\<close> below), and the rounding of a
  given number is then a matter of arithmetic on fractions (lemma \<open>dbl_evalI\<close>).
\<close>

definition binade :: "real \<Rightarrow> int" where
  "binade x = \<lfloor>log 2 \<bar>x\<bar>\<rfloor>"

definition quantum :: "real \<Rightarrow> real" where
  "quantum x = 2 powi (max (binade x - 52) (- 1074))"

definition nearest :: "real \<Rightarrow> real" where
  "nearest x = (if x = 0 then 0 else of_int (rne (x / quantum x)) * quantum x)"

text \<open>
  The double that an exact result \<open>x\<close> rounds to: an infinity when the rounded magnitude
  reaches \<open>2\<^sup>1\<^sup>0\<^sup>2\<^sup>4\<close>. A decimal literal of the source is the double of its decimal value.
\<close>

definition dbl :: "real \<Rightarrow> jsnum" where
  "dbl x = (let y = nearest x
            in if 2 powi 1024 \<le> \<bar>y\<bar> then (if 0 < x then PInf else NInf) else Fin y)"

fun rnd :: "jsnum \<Rightarrow> jsnum" where
  "rnd (Fin x) = dbl x"
| "rnd v = v"

text \<open>
  The four operations of the source on doubles: the exact result, NaN and the infinities
  as IEEE 754 has them, then rounded.
\<close>

definition fadd :: "jsnum \<Rightarrow> jsnum \<Rightarrow> jsnum" where
  "fadd a b = rnd (a + b)"

definition fsub :: "jsnum \<Rightarrow> jsnum \<Rightarrow> jsnum" where
  "fsub a b = rnd (a - b)"

definition fmul :: "jsnum \<Rightarrow> jsnum \<Rightarrow> jsnum" where
  "fmul a b = rnd (a * b)"

definition fdiv :: "jsnum \<Rightarrow> jsnum \<Rightarrow> jsnum" where
  "fdiv a b = rnd (a / b)"

text \<open>
  The values a text field can have after \<^verbatim>\<open>Number(v)\<close>: the doubles, NaN and the
  infinities, which rounding leaves as they are.
\<close>

definition is_double :: "jsnum \<Rightarrow> bool" where
  "is_double v = (rnd v = v)"

text \<open>A finite number between two powers of two.\<close>

fun between :: "int \<Rightarrow> int \<Rightarrow> jsnum \<Rightarrow> bool" where
  "between a b (Fin y) = (2 powi a \<le> y \<and> y \<le> 2 powi b)"
| "between a b _ = False"

text \<open>
  A dimension of ordinary size: a double between \<open>2\<^sup>-\<^sup>2\<^sup>5\<^sup>6\<close> and \<open>2\<^sup>2\<^sup>5\<^sup>6\<close>, about \<open>10\<^sup>-\<^sup>7\<^sup>7\<close> and
  \<open>10\<^sup>7\<^sup>7\<close>, in the unit of its field.
\<close>

definition ordinary :: "jsnum \<Rightarrow> bool" where
  "ordinary v = (is_double v \<and> between (- 256) 256 v)"

subsection \<open>First version\<close>

text \<open>
  The functions of the three versions again, line by line as above, with every literal
  and every operation rounded. \<^verbatim>\<open>a * b * c\<close> is \<^verbatim>\<open>(a * b) * c\<close>.
\<close>

definition round_v1_fp :: "jsnum \<Rightarrow> jsnum \<Rightarrow> jsnum \<Rightarrow> LenUnit \<Rightarrow> calc" where
  "round_v1_fp odIn thIn roundLen roundLenUnit =
     (let od = clampNonNegative (num odIn);
          t = clampNonNegative (num thIn);
          L = clampNonNegative (num roundLen);
          validDims = (isFinite od \<and> isFinite t \<and> t > Fin 0 \<and> od > t)
      in if \<not> validDims then
           \<lparr>ok = False,
            unitLabel = (if roundLenUnit = Ft then ''kg/ft'' else ''kg/m''),
            wPerUnit = NaN, total = NaN\<rparr>
         else
           (let w = (if roundLenUnit = Ft then fmul (fmul (dbl 10.69) (fsub od t)) t
                     else fmul (fmul (dbl 24.66) (fsub od t)) t);
                hasLen = (isFinite L \<and> L > Fin 0);
                tot = (if hasLen then fmul w L else NaN)
            in \<lparr>ok = True,
                unitLabel = (if roundLenUnit = Ft then ''kg/ft'' else ''kg/m''),
                wPerUnit = w, total = tot\<rparr>))"

definition square_v1_fp :: "jsnum \<Rightarrow> jsnum \<Rightarrow> jsnum \<Rightarrow> calc" where
  "square_v1_fp sideMm thMm sqLenM =
     (let S = clampNonNegative (num sideMm);
          t = clampNonNegative (num thMm);
          L = clampNonNegative (num sqLenM);
          validDims = (isFinite S \<and> isFinite t \<and> t > Fin 0 \<and> S > t)
      in if \<not> validDims then
           \<lparr>ok = False, unitLabel = ''kg/m'', wPerUnit = NaN, total = NaN\<rparr>
         else
           (let w = fdiv (fmul (fmul (fmul (dbl 4) t) (fsub S t)) (dbl 7.85)) (dbl 1000);
                hasLen = (isFinite L \<and> L > Fin 0);
                tot = (if hasLen then fmul w L else NaN)
            in \<lparr>ok = True, unitLabel = ''kg/m'', wPerUnit = w, total = tot\<rparr>))"

subsection \<open>Second version\<close>

definition IN_TO_MM_fp :: jsnum where
  "IN_TO_MM_fp = dbl 25.4"

definition FT_TO_MM_fp :: jsnum where
  "FT_TO_MM_fp = dbl 304.8"

definition M_TO_MM_fp :: jsnum where
  "M_TO_MM_fp = dbl 1000"

definition STEEL_DENSITY_KG_PER_MM3_fp :: jsnum where
  "STEEL_DENSITY_KG_PER_MM3_fp = dbl (7.85 / 10 ^ 6)"

text \<open>\<^verbatim>\<open>Math.PI\<close>, the double nearest to \<open>\<pi>\<close>.\<close>

definition Math_PI_fp :: jsnum where
  "Math_PI_fp = dbl pi"

definition inchesToMm_fp :: "jsnum \<Rightarrow> jsnum" where
  "inchesToMm_fp xIn = fmul xIn IN_TO_MM_fp"

definition areaRoundMm2_fp :: "jsnum \<Rightarrow> jsnum \<Rightarrow> jsnum" where
  "areaRoundMm2_fp odMm tMm =
     (let idMm = fsub odMm (fmul (dbl 2) tMm)
      in if \<not> (idMm > Fin 0) then NaN
         else fmul (fdiv Math_PI_fp (dbl 4)) (fsub (fmul odMm odMm) (fmul idMm idMm)))"

definition areaSquareTubeMm2_fp :: "jsnum \<Rightarrow> jsnum \<Rightarrow> jsnum" where
  "areaSquareTubeMm2_fp sideMm tMm =
     (let inner = fsub sideMm (fmul (dbl 2) tMm)
      in if \<not> (inner > Fin 0) then NaN
         else fsub (fmul sideMm sideMm) (fmul inner inner))"

definition kgPerUnitFromArea_fp :: "jsnum \<Rightarrow> LenUnit \<Rightarrow> jsnum" where
  "kgPerUnitFromArea_fp areaMm2 unit =
     (let lenMm = (if unit = Ft then FT_TO_MM_fp else M_TO_MM_fp);
          volMm3 = fmul areaMm2 lenMm
      in fmul volMm3 STEEL_DENSITY_KG_PER_MM3_fp)"

definition round_v2_fp :: "jsnum \<Rightarrow> jsnum \<Rightarrow> jsnum \<Rightarrow> LenUnit \<Rightarrow> calc" where
  "round_v2_fp odIn thMmRound roundLen roundLenUnit =
     (let odInVal = clampNonNegative (num odIn);
          tMm = clampNonNegative (num thMmRound);
          L = clampNonNegative (num roundLen);
          odMm = (if isFinite odInVal then inchesToMm_fp odInVal else NaN);
          validDims = (isFinite odMm \<and> isFinite tMm \<and> tMm > Fin 0 \<and> odMm > fmul (dbl 2) tMm)
      in if \<not> validDims then
           \<lparr>ok = False,
            unitLabel = (if roundLenUnit = Ft then ''kg/ft'' else ''kg/m''),
            wPerUnit = NaN, total = NaN\<rparr>
         else
           (let area = areaRoundMm2_fp odMm tMm;
                w = kgPerUnitFromArea_fp area roundLenUnit;
                hasLen = (isFinite L \<and> L > Fin 0);
                tot = (if hasLen then fmul w L else NaN)
            in \<lparr>ok = True,
                unitLabel = (if roundLenUnit = Ft then ''kg/ft'' else ''kg/m''),
                wPerUnit = w, total = tot\<rparr>))"

definition square_v2_fp :: "jsnum \<Rightarrow> jsnum \<Rightarrow> jsnum \<Rightarrow> LenUnit \<Rightarrow> calc" where
  "square_v2_fp sideIn thMmSq sqLen sqLenUnit =
     (let sideInVal = clampNonNegative (num sideIn);
          tMm = clampNonNegative (num thMmSq);
          L = clampNonNegative (num sqLen);
          sideMm = (if isFinite sideInVal then inchesToMm_fp sideInVal else NaN);
          validDims = (isFinite sideMm \<and> isFinite tMm \<and> tMm > Fin 0 \<and> sideMm > fmul (dbl 2) tMm)
      in if \<not> validDims then
           \<lparr>ok = False,
            unitLabel = (if sqLenUnit = Ft then ''kg/ft'' else ''kg/m''),
            wPerUnit = NaN, total = NaN\<rparr>
         else
           (let area = areaSquareTubeMm2_fp sideMm tMm;
                w = kgPerUnitFromArea_fp area sqLenUnit;
                hasLen = (isFinite L \<and> L > Fin 0);
                tot = (if hasLen then fmul w L else NaN)
            in \<lparr>ok = True,
                unitLabel = (if sqLenUnit = Ft then ''kg/ft'' else ''kg/m''),
                wPerUnit = w, total = tot\<rparr>))"

subsection \<open>Third version\<close>

definition mm_fp :: "Unit \<Rightarrow> jsnum \<Rightarrow> jsnum" where
  "mm_fp unit v = (if unit = In then fmul v IN_TO_MM_fp else v)"

definition result_fp ::
  "PipeType \<Rightarrow> Unit \<Rightarrow> jsnum \<Rightarrow> jsnum \<Rightarrow> jsnum \<Rightarrow> jsnum \<Rightarrow> jsnum \<Rightarrow> jsnum \<Rightarrow> pipe_result" where
  "result_fp pipeType unit od side width height thickness length' =
     (let T = mm_fp unit (n thickness);
          L = n length'
      in if \<not> (T > Fin 0) then invalid
         else
           (case (if pipeType = Round then
                    (let OD = mm_fp unit (n od)
                     in if \<not> (OD > fmul (dbl 2) T) then None
                        else Some (fmul (fmul (dbl 0.02466) (fsub OD T)) T))
                  else Some NaN) of
              None \<Rightarrow> invalid
            | Some w1 \<Rightarrow>
           (case (if pipeType = Square then
                    (let S = mm_fp unit (n side)
                     in if \<not> (S > fmul (dbl 2) T) then None
                        else Some (fdiv (fmul (fmul (fmul (dbl 4) T) (fsub S T)) (dbl 7.85))
                                     (dbl 1000)))
                  else Some w1) of
              None \<Rightarrow> invalid
            | Some w2 \<Rightarrow>
           (case (if pipeType = Rectangle then
                    (let W = mm_fp unit (n width);
                         H = mm_fp unit (n height)
                     in if \<not> (W > fmul (dbl 2) T \<and> H > fmul (dbl 2) T) then None
                        else Some (fdiv (fmul (fmul (fmul (dbl 2) T)
                                                 (fsub (fadd W H) (fmul (dbl 2) T)))
                                           (dbl 7.85))
                                     (dbl 1000)))
                  else Some w2) of
              None \<Rightarrow> invalid
            | Some w3 \<Rightarrow>
                (let tot = (if isFinite L \<and> L > Fin 0 then fmul w3 L else NaN)
                 in \<lparr>ok3 = True, wPerM = w3, total3 = tot\<rparr>)))))"

section \<open>Auxiliary facts\<close>

subsection \<open>Bounds on \<open>\<pi>\<close> from Machin's formula\<close>








subsection \<open>Parsing and normalisation\<close>

lemma isFinite_iff: "isFinite x \<longleftrightarrow> (\<exists>r. x = Fin r)"
  by (cases x) simp_all

lemma num_simps [simp]:
  "num (Fin r) = Fin r" "num NaN = NaN" "num PInf = NaN" "num NInf = NaN"
  by (simp_all add: num_def)

lemma n_simps [simp]:
  "n (Fin r) = Fin r" "n NaN = NaN" "n PInf = NaN" "n NInf = NaN"
  by (simp_all add: n_def)

lemma clampNonNegative_simps [simp]:
  "clampNonNegative (Fin r) = (if 0 \<le> r then Fin r else NaN)"
  "clampNonNegative NaN = NaN" "clampNonNegative PInf = NaN" "clampNonNegative NInf = NaN"
  by (simp_all add: clampNonNegative_def)

lemma mm_simps [simp]:
  "mm Mm v = v" "mm In (Fin r) = Fin (r * 25.4)" "mm In NaN = NaN"
  by (simp_all add: mm_def IN_TO_MM_def)

lemma inchesToMm_simps [simp]:
  "inchesToMm (Fin r) = Fin (r * 25.4)" "inchesToMm NaN = NaN"
  by (simp_all add: inchesToMm_def IN_TO_MM_def)

text \<open>The length guard of every version, on the value of the length field.\<close>

lemma total_v12:
  "(if isFinite (clampNonNegative (num L)) \<and> clampNonNegative (num L) > Fin 0
    then w * clampNonNegative (num L) else NaN) = spec_totalWeight w L"
  by (cases L) (simp_all add: spec_totalWeight_def)

lemma total_v3:
  "(if isFinite (n L) \<and> n L > Fin 0 then w * n L else NaN) = spec_totalWeight w L"
  by (cases L) (simp_all add: spec_totalWeight_def)

lemma parsed_cases:
  "clampNonNegative (num x) = NaN \<or> (\<exists>r. 0 \<le> r \<and> x = Fin r \<and> clampNonNegative (num x) = Fin r)"
  by (cases x) simp_all

subsection \<open>What each version returns, accepted and rejected inputs apart\<close>

lemma round_v1_accept:
  assumes "0 < t" "t < od"
  shows "round_v1 (Fin od) (Fin t) L u =
    \<lparr>ok = True, unitLabel = (if u = Ft then ''kg/ft'' else ''kg/m''),
     wPerUnit = Fin ((if u = Ft then 10.69 else 24.66) * (od - t) * t),
     total = spec_totalWeight (Fin ((if u = Ft then 10.69 else 24.66) * (od - t) * t)) L\<rparr>"
  using assms by (simp add: round_v1_def Let_def total_v12)

lemma round_v1_reject:
  assumes "\<not> v1_accepts (clampNonNegative (num a)) (clampNonNegative (num b))"
  shows "round_v1 a b L u =
    \<lparr>ok = False, unitLabel = (if u = Ft then ''kg/ft'' else ''kg/m''),
     wPerUnit = NaN, total = NaN\<rparr>"
proof -
  have "\<not> (isFinite (clampNonNegative (num a)) \<and> isFinite (clampNonNegative (num b))
      \<and> clampNonNegative (num b) > Fin 0 \<and> clampNonNegative (num a) > clampNonNegative (num b))"
    using assms parsed_cases [of a] parsed_cases [of b] by auto
  then show ?thesis by (simp add: round_v1_def Let_def)
qed

lemma square_v1_accept:
  assumes "0 < t" "t < S"
  shows "square_v1 (Fin S) (Fin t) L =
    \<lparr>ok = True, unitLabel = ''kg/m'',
     wPerUnit = Fin (4 * t * (S - t) * 7.85 / 1000),
     total = spec_totalWeight (Fin (4 * t * (S - t) * 7.85 / 1000)) L\<rparr>"
  using assms by (simp add: square_v1_def Let_def total_v12)

lemma square_v1_reject:
  assumes "\<not> v1_accepts (clampNonNegative (num a)) (clampNonNegative (num b))"
  shows "square_v1 a b L = \<lparr>ok = False, unitLabel = ''kg/m'', wPerUnit = NaN, total = NaN\<rparr>"
proof -
  have "\<not> (isFinite (clampNonNegative (num a)) \<and> isFinite (clampNonNegative (num b))
      \<and> clampNonNegative (num b) > Fin 0 \<and> clampNonNegative (num a) > clampNonNegative (num b))"
    using assms parsed_cases [of a] parsed_cases [of b] by auto
  then show ?thesis by (simp add: square_v1_def Let_def)
qed

lemma odMm_eq:
  "(if isFinite (clampNonNegative (num a)) then inchesToMm (clampNonNegative (num a)) else NaN)
     = inchesToMm (clampNonNegative (num a))"
  using parsed_cases [of a] by auto

lemma inchesToMm_parsed_cases:
  "inchesToMm (clampNonNegative (num a)) = NaN \<or> isFinite (inchesToMm (clampNonNegative (num a)))"
  by (cases a) simp_all

lemma round_v2_accept:
  assumes "inchesToMm (clampNonNegative (num a)) = Fin OD" "clampNonNegative (num b) = Fin T"
    and "0 < T" "2 * T < OD"
  shows "round_v2 a b L u =
    \<lparr>ok = True, unitLabel = (if u = Ft then ''kg/ft'' else ''kg/m''),
     wPerUnit = Fin (pi / 4 * (OD * OD - (OD - 2 * T) * (OD - 2 * T))
                   * (if u = Ft then 304.8 else 1000) * (7.85 / 10 ^ 6)),
     total = spec_totalWeight
       (Fin (pi / 4 * (OD * OD - (OD - 2 * T) * (OD - 2 * T))
                   * (if u = Ft then 304.8 else 1000) * (7.85 / 10 ^ 6))) L\<rparr>"
  using assms
  by (simp add: round_v2_def Let_def odMm_eq total_v12 areaRoundMm2_def kgPerUnitFromArea_def
      Math_PI_def FT_TO_MM_def M_TO_MM_def STEEL_DENSITY_KG_PER_MM3_def)

lemma round_v2_reject:
  assumes "\<not> spec_valid (RoundTube (inchesToMm (clampNonNegative (num a))) (clampNonNegative (num b)))"
  shows "round_v2 a b L u =
    \<lparr>ok = False, unitLabel = (if u = Ft then ''kg/ft'' else ''kg/m''),
     wPerUnit = NaN, total = NaN\<rparr>"
proof -
  let ?od = "inchesToMm (clampNonNegative (num a))" and ?t = "clampNonNegative (num b)"
  have "\<not> (isFinite ?od \<and> isFinite ?t \<and> ?t > Fin 0 \<and> ?od > Fin 2 * ?t)"
    using assms inchesToMm_parsed_cases [of a] parsed_cases [of b] by (auto simp: isFinite_iff)
  then show ?thesis by (simp add: round_v2_def Let_def odMm_eq)
qed

lemma square_v2_accept:
  assumes "inchesToMm (clampNonNegative (num a)) = Fin S" "clampNonNegative (num b) = Fin T"
    and "0 < T" "2 * T < S"
  shows "square_v2 a b L u =
    \<lparr>ok = True, unitLabel = (if u = Ft then ''kg/ft'' else ''kg/m''),
     wPerUnit = Fin ((S * S - (S - 2 * T) * (S - 2 * T))
                   * (if u = Ft then 304.8 else 1000) * (7.85 / 10 ^ 6)),
     total = spec_totalWeight
       (Fin ((S * S - (S - 2 * T) * (S - 2 * T))
                   * (if u = Ft then 304.8 else 1000) * (7.85 / 10 ^ 6))) L\<rparr>"
  using assms
  by (simp add: square_v2_def Let_def odMm_eq total_v12 areaSquareTubeMm2_def kgPerUnitFromArea_def
      FT_TO_MM_def M_TO_MM_def STEEL_DENSITY_KG_PER_MM3_def)

lemma square_v2_reject:
  assumes "\<not> spec_valid (SquareTube (inchesToMm (clampNonNegative (num a))) (clampNonNegative (num b)))"
  shows "square_v2 a b L u =
    \<lparr>ok = False, unitLabel = (if u = Ft then ''kg/ft'' else ''kg/m''),
     wPerUnit = NaN, total = NaN\<rparr>"
proof -
  let ?od = "inchesToMm (clampNonNegative (num a))" and ?t = "clampNonNegative (num b)"
  have "\<not> (isFinite ?od \<and> isFinite ?t \<and> ?t > Fin 0 \<and> ?od > Fin 2 * ?t)"
    using assms inchesToMm_parsed_cases [of a] parsed_cases [of b] by (auto simp: isFinite_iff)
  then show ?thesis by (simp add: square_v2_def Let_def odMm_eq)
qed

lemma mm_n_cases: "mm u (n x) = NaN \<or> isFinite (mm u (n x))"
  by (cases x; cases u) simp_all

lemma result_round_accept:
  assumes "mm u (n od) = Fin OD" "mm u (n t) = Fin T" "0 < T" "2 * T < OD"
  shows "result Round u od s w h t L =
    \<lparr>ok3 = True, wPerM = Fin (0.02466 * (OD - T) * T),
     total3 = spec_totalWeight (Fin (0.02466 * (OD - T) * T)) L\<rparr>"
  using assms by (simp add: result_def Let_def total_v3)

lemma result_square_accept:
  assumes "mm u (n s) = Fin S" "mm u (n t) = Fin T" "0 < T" "2 * T < S"
  shows "result Square u od s w h t L =
    \<lparr>ok3 = True, wPerM = Fin (4 * T * (S - T) * 7.85 / 1000),
     total3 = spec_totalWeight (Fin (4 * T * (S - T) * 7.85 / 1000)) L\<rparr>"
  using assms by (simp add: result_def Let_def total_v3)

lemma result_rectangle_accept:
  assumes "mm u (n w) = Fin W" "mm u (n h) = Fin H" "mm u (n t) = Fin T"
    and "0 < T" "2 * T < W" "2 * T < H"
  shows "result Rectangle u od s w h t L =
    \<lparr>ok3 = True, wPerM = Fin (2 * T * ((W + H) - 2 * T) * 7.85 / 1000),
     total3 = spec_totalWeight (Fin (2 * T * ((W + H) - 2 * T) * 7.85 / 1000)) L\<rparr>"
  using assms by (simp add: result_def Let_def total_v3)

lemma result_round_reject:
  assumes "\<not> spec_valid (RoundTube (mm u (n od)) (mm u (n t)))"
  shows "result Round u od s w h t L = invalid"
  using assms mm_n_cases [of u od] mm_n_cases [of u t]
  by (auto simp: result_def Let_def isFinite_iff)

lemma result_square_reject:
  assumes "\<not> spec_valid (SquareTube (mm u (n s)) (mm u (n t)))"
  shows "result Square u od s w h t L = invalid"
  using assms mm_n_cases [of u s] mm_n_cases [of u t]
  by (auto simp: result_def Let_def isFinite_iff)

lemma result_rectangle_reject:
  assumes "\<not> spec_valid (RectangleTube (mm u (n w)) (mm u (n h)) (mm u (n t)))"
  shows "result Rectangle u od s w h t L = invalid"
  using assms mm_n_cases [of u w] mm_n_cases [of u h] mm_n_cases [of u t]
  by (auto simp: result_def Let_def isFinite_iff)

subsection \<open>The round shortcut against the annulus formula\<close>





subsection \<open>Validity of each version\<close>

lemma round_v1_ok_iff:
  "ok (round_v1 a b L u) = v1_accepts (clampNonNegative (num a)) (clampNonNegative (num b))"
proof (cases "v1_accepts (clampNonNegative (num a)) (clampNonNegative (num b))")
  case True
  then obtain od t where "a = Fin od" "b = Fin t" "0 < t" "t < od"
    using parsed_cases [of a] parsed_cases [of b] by auto
  then show ?thesis by (simp add: round_v1_accept)
next
  case False
  then show ?thesis by (simp add: round_v1_reject)
qed

lemma square_v1_ok_iff:
  "ok (square_v1 a b L) = v1_accepts (clampNonNegative (num a)) (clampNonNegative (num b))"
proof (cases "v1_accepts (clampNonNegative (num a)) (clampNonNegative (num b))")
  case True
  then obtain S t where "a = Fin S" "b = Fin t" "0 < t" "t < S"
    using parsed_cases [of a] parsed_cases [of b] by auto
  then show ?thesis by (simp add: square_v1_accept)
next
  case False
  then show ?thesis by (simp add: square_v1_reject)
qed

lemma spec_feasibleE:
  assumes "spec_feasible X Y"
  obtains x y where "X = Fin x" "Y = Fin y" "0 < y" "2 * y < x"
  using assms by (cases X; cases Y) simp_all

lemma round_v2_ok_iff:
  "ok (round_v2 a b L u)
     = spec_valid (RoundTube (inchesToMm (clampNonNegative (num a))) (clampNonNegative (num b)))"
proof (cases "spec_valid (RoundTube (inchesToMm (clampNonNegative (num a))) (clampNonNegative (num b)))")
  case True
  then obtain OD T where "inchesToMm (clampNonNegative (num a)) = Fin OD"
      "clampNonNegative (num b) = Fin T" "0 < T" "2 * T < OD"
    by (auto elim: spec_feasibleE)
  then show ?thesis using True by (simp add: round_v2_accept)
next
  case False
  then show ?thesis by (simp add: round_v2_reject)
qed

lemma square_v2_ok_iff:
  "ok (square_v2 a b L u)
     = spec_valid (SquareTube (inchesToMm (clampNonNegative (num a))) (clampNonNegative (num b)))"
proof (cases "spec_valid (SquareTube (inchesToMm (clampNonNegative (num a))) (clampNonNegative (num b)))")
  case True
  then obtain S T where "inchesToMm (clampNonNegative (num a)) = Fin S"
      "clampNonNegative (num b) = Fin T" "0 < T" "2 * T < S"
    by (auto elim: spec_feasibleE)
  then show ?thesis using True by (simp add: square_v2_accept)
next
  case False
  then show ?thesis by (simp add: square_v2_reject)
qed

lemma invalid_simps [simp]: "ok3 invalid = False" "wPerM invalid = NaN" "total3 invalid = NaN"
  by (simp_all add: invalid_def)

lemma result_round_ok_iff:
  "ok3 (result Round u od s w h t L) = spec_valid (RoundTube (mm u (n od)) (mm u (n t)))"
proof (cases "spec_valid (RoundTube (mm u (n od)) (mm u (n t)))")
  case True
  then obtain OD T where "mm u (n od) = Fin OD" "mm u (n t) = Fin T" "0 < T" "2 * T < OD"
    by (auto elim: spec_feasibleE)
  then show ?thesis using True by (simp add: result_round_accept)
next
  case False
  then show ?thesis by (simp add: result_round_reject)
qed

lemma result_square_ok_iff:
  "ok3 (result Square u od s w h t L) = spec_valid (SquareTube (mm u (n s)) (mm u (n t)))"
proof (cases "spec_valid (SquareTube (mm u (n s)) (mm u (n t)))")
  case True
  then obtain S T where "mm u (n s) = Fin S" "mm u (n t) = Fin T" "0 < T" "2 * T < S"
    by (auto elim: spec_feasibleE)
  then show ?thesis using True by (simp add: result_square_accept)
next
  case False
  then show ?thesis by (simp add: result_square_reject)
qed

lemma result_rectangle_ok_iff:
  "ok3 (result Rectangle u od s w h t L)
     = spec_valid (RectangleTube (mm u (n w)) (mm u (n h)) (mm u (n t)))"
proof (cases "spec_valid (RectangleTube (mm u (n w)) (mm u (n h)) (mm u (n t)))")
  case True
  then obtain W H T where "mm u (n w) = Fin W" "mm u (n h) = Fin H" "mm u (n t) = Fin T"
      "0 < T" "2 * T < W" "2 * T < H"
    by (auto elim!: spec_feasibleE)
  then show ?thesis using True by (simp add: result_rectangle_accept)
next
  case False
  then show ?thesis by (simp add: result_rectangle_reject)
qed

lemma result_ok_iff:
  "ok3 (result p u od s w h t L) = spec_valid (normalized_v3 p u od s w h t)"
  by (cases p)
    (simp_all add: normalized_v3_def result_round_ok_iff result_square_ok_iff
      result_rectangle_ok_iff)

lemma result_reject:
  assumes "\<not> spec_valid (normalized_v3 p u od s w h t)"
  shows "result p u od s w h t L = invalid"
  using assms
  by (cases p)
    (simp_all add: normalized_v3_def result_round_reject result_square_reject
      result_rectangle_reject)

lemma has_nan_not_valid: "has_nan P \<Longrightarrow> \<not> spec_valid P"
  by (cases P) auto

subsection \<open>The result as a function of the run length\<close>

lemma spec_totalWeight_NaN [simp]: "spec_totalWeight NaN L = NaN"
  by (cases L) (simp_all add: spec_totalWeight_def)

lemma round_v1_shape:
  "\<exists>w. \<forall>L. round_v1 a b L u =
     \<lparr>ok = v1_accepts (clampNonNegative (num a)) (clampNonNegative (num b)),
      unitLabel = (if u = Ft then ''kg/ft'' else ''kg/m''),
      wPerUnit = w, total = spec_totalWeight w L\<rparr>"
proof (cases "v1_accepts (clampNonNegative (num a)) (clampNonNegative (num b))")
  case True
  then obtain od t where "a = Fin od" "b = Fin t" "0 < t" "t < od"
    using parsed_cases [of a] parsed_cases [of b] by auto
  then show ?thesis using True by (auto simp: round_v1_accept)
next
  case False
  then have "\<forall>L. round_v1 a b L u =
     \<lparr>ok = v1_accepts (clampNonNegative (num a)) (clampNonNegative (num b)),
      unitLabel = (if u = Ft then ''kg/ft'' else ''kg/m''),
      wPerUnit = NaN, total = spec_totalWeight NaN L\<rparr>"
    by (simp add: round_v1_reject)
  then show ?thesis by blast
qed

lemma square_v1_shape:
  "\<exists>w. \<forall>L. square_v1 a b L =
     \<lparr>ok = v1_accepts (clampNonNegative (num a)) (clampNonNegative (num b)),
      unitLabel = ''kg/m'', wPerUnit = w, total = spec_totalWeight w L\<rparr>"
proof (cases "v1_accepts (clampNonNegative (num a)) (clampNonNegative (num b))")
  case True
  then obtain S t where "a = Fin S" "b = Fin t" "0 < t" "t < S"
    using parsed_cases [of a] parsed_cases [of b] by auto
  then show ?thesis using True by (auto simp: square_v1_accept)
next
  case False
  then have "\<forall>L. square_v1 a b L =
     \<lparr>ok = v1_accepts (clampNonNegative (num a)) (clampNonNegative (num b)),
      unitLabel = ''kg/m'', wPerUnit = NaN, total = spec_totalWeight NaN L\<rparr>"
    by (simp add: square_v1_reject)
  then show ?thesis by blast
qed

lemma round_v2_shape:
  "\<exists>w. \<forall>L. round_v2 a b L u =
     \<lparr>ok = spec_valid (normalized_round_v2 a b),
      unitLabel = (if u = Ft then ''kg/ft'' else ''kg/m''),
      wPerUnit = w, total = spec_totalWeight w L\<rparr>"
proof (cases "spec_valid (normalized_round_v2 a b)")
  case True
  then obtain OD T where "inchesToMm (clampNonNegative (num a)) = Fin OD"
      "clampNonNegative (num b) = Fin T" "0 < T" "2 * T < OD"
    by (auto simp: normalized_round_v2_def elim: spec_feasibleE)
  then show ?thesis using True by (auto simp: round_v2_accept)
next
  case False
  then have "\<forall>L. round_v2 a b L u =
     \<lparr>ok = spec_valid (normalized_round_v2 a b),
      unitLabel = (if u = Ft then ''kg/ft'' else ''kg/m''),
      wPerUnit = NaN, total = spec_totalWeight NaN L\<rparr>"
    by (simp add: round_v2_reject normalized_round_v2_def)
  then show ?thesis by blast
qed

lemma square_v2_shape:
  "\<exists>w. \<forall>L. square_v2 a b L u =
     \<lparr>ok = spec_valid (normalized_square_v2 a b),
      unitLabel = (if u = Ft then ''kg/ft'' else ''kg/m''),
      wPerUnit = w, total = spec_totalWeight w L\<rparr>"
proof (cases "spec_valid (normalized_square_v2 a b)")
  case True
  then obtain S T where "inchesToMm (clampNonNegative (num a)) = Fin S"
      "clampNonNegative (num b) = Fin T" "0 < T" "2 * T < S"
    by (auto simp: normalized_square_v2_def elim: spec_feasibleE)
  then show ?thesis using True by (auto simp: square_v2_accept)
next
  case False
  then have "\<forall>L. square_v2 a b L u =
     \<lparr>ok = spec_valid (normalized_square_v2 a b),
      unitLabel = (if u = Ft then ''kg/ft'' else ''kg/m''),
      wPerUnit = NaN, total = spec_totalWeight NaN L\<rparr>"
    by (simp add: square_v2_reject normalized_square_v2_def)
  then show ?thesis by blast
qed

lemma result_shape:
  "\<exists>w. \<forall>L. result p u od s wd h t L =
     \<lparr>ok3 = spec_valid (normalized_v3 p u od s wd h t),
      wPerM = w, total3 = spec_totalWeight w L\<rparr>"
proof (cases "spec_valid (normalized_v3 p u od s wd h t)")
  case False
  then have "\<forall>L. result p u od s wd h t L =
     \<lparr>ok3 = spec_valid (normalized_v3 p u od s wd h t),
      wPerM = NaN, total3 = spec_totalWeight NaN L\<rparr>"
    by (simp add: result_reject invalid_def)
  then show ?thesis by blast
next
  case True
  show ?thesis
  proof (cases p)
    case Round
    with True obtain OD T where "mm u (n od) = Fin OD" "mm u (n t) = Fin T" "0 < T" "2 * T < OD"
      by (auto simp: normalized_v3_def elim: spec_feasibleE)
    then show ?thesis using True Round by (auto simp: result_round_accept)
  next
    case Square
    with True obtain S T where "mm u (n s) = Fin S" "mm u (n t) = Fin T" "0 < T" "2 * T < S"
      by (auto simp: normalized_v3_def elim: spec_feasibleE)
    then show ?thesis using True Square by (auto simp: result_square_accept)
  next
    case Rectangle
    with True obtain W H T where "mm u (n wd) = Fin W" "mm u (n h) = Fin H" "mm u (n t) = Fin T"
        "0 < T" "2 * T < W" "2 * T < H"
      by (auto simp: normalized_v3_def elim!: spec_feasibleE)
    then show ?thesis using True Rectangle by (auto simp: result_rectangle_accept)
  qed
qed

subsection \<open>The square and rectangle shortcuts against the exact areas\<close>

lemma square_difference: "(S::real)\<^sup>2 - (S - 2 * T)\<^sup>2 = 4 * T * (S - T)"
  by (simp add: power2_eq_square algebra_simps)

lemma rectangle_difference:
  "(W::real) * H - (W - 2 * T) * (H - 2 * T) = 2 * T * ((W + H) - 2 * T)"
  by (simp add: algebra_simps)

lemma spec_square_weight_metre:
  "spec_weightPerRunUnit (spec_areaSquare S T) M = 4 * T * (S - T) * 7.85 / 1000"
  unfolding spec_weightPerRunUnit_def spec_areaSquare_def spec_lengthFactorMm_def
    spec_density_def square_difference
  by simp

lemma spec_rectangle_weight_metre:
  "spec_weightPerRunUnit (spec_areaRectangle W H T) M = 2 * T * ((W + H) - 2 * T) * 7.85 / 1000"
  unfolding spec_weightPerRunUnit_def spec_areaRectangle_def spec_lengthFactorMm_def
    spec_density_def rectangle_difference
  by simp

subsection \<open>Inch inputs\<close>

lemma n_mm_n: "n (mm u (n x)) = mm u (n x)"
  by (cases x; cases u) simp_all

lemma result_inch_as_mm:
  "result p In od s w h t L = result p Mm (mm In (n od)) (mm In (n s)) (mm In (n w)) (mm In (n h)) (mm In (n t)) L"
  by (simp add: result_def n_mm_n Let_def)

lemma within_tolerance_refl [simp]: "within_tolerance (Fin a) (Fin a)"
  by simp

lemma round_v2_as_mm:
  assumes "0 < T" "2 * T < odIn * 25.4"
  shows "wPerUnit (round_v2 (Fin odIn) (Fin T) L u)
           = kgPerUnitFromArea (areaRoundMm2 (Fin (odIn * 25.4)) (Fin T)) u"
proof -
  have "0 \<le> odIn" using assms by simp
  then have "inchesToMm (clampNonNegative (num (Fin odIn))) = Fin (odIn * 25.4)"
    by simp
  moreover have "clampNonNegative (num (Fin T)) = Fin T" using assms by simp
  ultimately have "wPerUnit (round_v2 (Fin odIn) (Fin T) L u)
      = Fin (pi / 4 * (odIn * 25.4 * (odIn * 25.4) - (odIn * 25.4 - 2 * T) * (odIn * 25.4 - 2 * T))
             * (if u = Ft then 304.8 else 1000) * (7.85 / 10 ^ 6))"
    using assms by (simp add: round_v2_accept [where OD = "odIn * 25.4" and T = T])
  moreover have "kgPerUnitFromArea (areaRoundMm2 (Fin (odIn * 25.4)) (Fin T)) u
      = Fin (pi / 4 * (odIn * 25.4 * (odIn * 25.4) - (odIn * 25.4 - 2 * T) * (odIn * 25.4 - 2 * T))
             * (if u = Ft then 304.8 else 1000) * (7.85 / 10 ^ 6))"
    using assms
    by (simp add: kgPerUnitFromArea_def areaRoundMm2_def Math_PI_def FT_TO_MM_def M_TO_MM_def
        STEEL_DENSITY_KG_PER_MM3_def)
  ultimately show ?thesis by simp
qed

subsection \<open>Foot and metre\<close>

lemma round_v2_foot_metre:
  "wPerUnit (round_v2 odIn thMm L Ft) * Fin (1 / 0.3048) = wPerUnit (round_v2 odIn thMm L M)"
proof (cases "spec_valid (normalized_round_v2 odIn thMm)")
  case True
  then obtain OD T where *: "inchesToMm (clampNonNegative (num odIn)) = Fin OD"
      "clampNonNegative (num thMm) = Fin T" "0 < T" "2 * T < OD"
    by (auto simp: normalized_round_v2_def elim: spec_feasibleE)
  show ?thesis
    by (simp add: round_v2_accept [OF *])
next
  case False
  then show ?thesis by (simp add: round_v2_reject normalized_round_v2_def)
qed

lemma square_v2_foot_metre:
  "wPerUnit (square_v2 sideIn thMm L Ft) * Fin (1 / 0.3048) = wPerUnit (square_v2 sideIn thMm L M)"
proof (cases "spec_valid (normalized_square_v2 sideIn thMm)")
  case True
  then obtain S T where *: "inchesToMm (clampNonNegative (num sideIn)) = Fin S"
      "clampNonNegative (num thMm) = Fin T" "0 < T" "2 * T < S"
    by (auto simp: normalized_square_v2_def elim: spec_feasibleE)
  show ?thesis
    by (simp add: square_v2_accept [OF *])
next
  case False
  then show ?thesis by (simp add: square_v2_reject normalized_square_v2_def)
qed

subsection \<open>Negative and NaN inputs of the third version\<close>

lemma negative_not_positive: "r < 0 \<Longrightarrow> \<not> Fin 0 < mm u (Fin r)"
  by (cases u) simp_all

lemma negative_not_above: "r < 0 \<Longrightarrow> Fin 0 < T \<Longrightarrow> \<not> Fin 2 * T < mm u (Fin r)"
  by (cases u; cases T) simp_all

lemma negative_thickness: "r < 0 \<Longrightarrow> result p u od s w h (Fin r) L = invalid"
  by (simp add: result_def negative_not_positive)

lemma nan_thickness: "result p u od s w h NaN L = invalid"
  by (cases u) (simp_all add: result_def)

lemma mm_NaN [simp]: "mm u NaN = NaN"
  by (cases u) simp_all

lemma not_above_NaN [simp]: "\<not> (x::jsnum) < NaN" "\<not> NaN < (x::jsnum)"
  by (cases x; simp)+

lemma negative_outer:
  assumes "r < 0"
  shows "result Round u (Fin r) s w h t L = result Round u NaN s w h t L"
    and "result Square u od (Fin r) w h t L = result Square u od NaN w h t L"
    and "result Rectangle u od s (Fin r) h t L = result Rectangle u od s NaN h t L"
    and "result Rectangle u od s w (Fin r) t L = result Rectangle u od s w NaN t L"
  using assms by (auto simp: result_def Let_def negative_not_above)

lemma negative_length:
  assumes "r < 0"
  shows "result p u od s w h t (Fin r) = result p u od s w h t NaN"
  using assms by (simp add: result_def Let_def)

subsection \<open>Rounding to the nearest double\<close>

lemma rne_of_int [simp]: "rne (of_int m) = m"
  by (simp add: rne_def)

lemma rne_lower: "q - 1 / 2 \<le> of_int (rne q)"
  unfolding rne_def Let_def by (auto; linarith)

lemma rne_upper: "of_int (rne q) \<le> q + 1 / 2"
  unfolding rne_def Let_def by (auto; linarith)

lemma rne_ge_floor: "\<lfloor>q\<rfloor> \<le> rne q"
  unfolding rne_def Let_def by auto

lemma rne_le_floor1: "rne q \<le> \<lfloor>q\<rfloor> + 1"
  unfolding rne_def Let_def by auto

lemma rne_mono:
  assumes "p \<le> q"
  shows "rne p \<le> rne q"
proof (cases "\<lfloor>p\<rfloor> = \<lfloor>q\<rfloor>")
  case True
  then show ?thesis
    using assms unfolding rne_def Let_def by (auto; linarith)
next
  case False
  then have "\<lfloor>p\<rfloor> < \<lfloor>q\<rfloor>"
    using assms floor_mono [of p q] by linarith
  then have "rne p \<le> \<lfloor>q\<rfloor>"
    using rne_le_floor1 [of p] by linarith
  then show ?thesis
    using rne_ge_floor [of q] by linarith
qed

lemma rne_minus: "rne (- q) = - rne q"
proof (cases "q = of_int \<lfloor>q\<rfloor>")
  case True
  then obtain m :: int where "q = of_int m" by blast
  then have "- q = of_int (- m)" by simp
  then show ?thesis using \<open>q = of_int m\<close> by (simp only: rne_of_int)
next
  case False
  then have fl: "\<lfloor>- q\<rfloor> = - \<lfloor>q\<rfloor> - 1"
    by (metis False ceiling_altdef ceiling_def diff_minus_eq_add minus_diff_eq
        add_diff_cancel of_int_floor_cancel uminus_add_conv_diff)
  show ?thesis
    unfolding rne_def Let_def fl
    using False by (auto simp: algebra_simps; linarith?)
qed

lemma two_powr_int: "(2::real) powr (of_int k) = 2 powi k"
  by (simp add: powr_real_of_int power_int_def power_one_over inverse_eq_divide)

lemma binade_eqI:
  assumes "2 powi k \<le> \<bar>x\<bar>" "\<bar>x\<bar> < 2 powi (k + 1)"
  shows "binade x = k"
proof -
  have "0 < \<bar>x\<bar>"
    using assms(1) zero_less_power_int [of "2::real" k] by linarith
  then show ?thesis
    unfolding binade_def
    using assms floor_log_eq_powr_iff [of "\<bar>x\<bar>" 2 k]
    by (simp add: two_powr_int [symmetric] add.commute)
qed

lemma binade_bounds:
  assumes "x \<noteq> 0"
  shows "2 powi (binade x) \<le> \<bar>x\<bar>" "\<bar>x\<bar> < 2 powi (binade x + 1)"
proof -
  have "0 < \<bar>x\<bar>" using assms by simp
  then have "2 powr (of_int (binade x)) \<le> \<bar>x\<bar> \<and> \<bar>x\<bar> < 2 powr (of_int (binade x) + 1)"
    using floor_log_eq_powr_iff [of "\<bar>x\<bar>" 2 "binade x"] by (simp add: binade_def)
  moreover have "(2::real) powr (of_int (binade x) + 1) = 2 powi (binade x + 1)"
    using two_powr_int [of "binade x + 1"] by (simp add: add.commute)
  ultimately show "2 powi (binade x) \<le> \<bar>x\<bar>" "\<bar>x\<bar> < 2 powi (binade x + 1)"
    by (simp_all add: two_powr_int)
qed

lemma binade_mono:
  assumes "0 < x" "x \<le> y"
  shows "binade x \<le> binade y"
  unfolding binade_def using assms by (intro floor_mono) simp

lemma binade_minus [simp]: "binade (- x) = binade x"
  by (simp add: binade_def)

lemma quantum_pos [simp]: "0 < quantum x"
  by (simp add: quantum_def)

lemma quantum_nonneg [simp]: "0 \<le> quantum x"
  by (simp add: quantum_def)

lemma quantum_minus [simp]: "quantum (- x) = quantum x"
  by (simp add: quantum_def)

lemma nearest_minus: "nearest (- x) = - nearest x"
  by (simp add: nearest_def rne_minus)

lemma nearest_le_grid:
  assumes "x \<le> of_int m * quantum x"
  shows "nearest x \<le> of_int m * quantum x"
proof (cases "x = 0")
  case True
  then show ?thesis using assms by (simp add: nearest_def)
next
  case False
  have "x / quantum x \<le> of_int m"
    using assms by (simp add: pos_divide_le_eq)
  then have "rne (x / quantum x) \<le> m"
    using rne_mono [of "x / quantum x" "of_int m"] by simp
  then have "of_int (rne (x / quantum x)) * quantum x \<le> of_int m * quantum x"
    by (intro mult_right_mono) simp_all
  then show ?thesis using False by (simp add: nearest_def)
qed

lemma nearest_ge_grid:
  assumes "of_int m * quantum x \<le> x"
  shows "of_int m * quantum x \<le> nearest x"
proof (cases "x = 0")
  case True
  then show ?thesis using assms by (simp add: nearest_def)
next
  case False
  have "of_int m \<le> x / quantum x"
    using assms by (simp add: pos_le_divide_eq)
  then have "m \<le> rne (x / quantum x)"
    using rne_mono [of "of_int m" "x / quantum x"] by simp
  then have "of_int m * quantum x \<le> of_int (rne (x / quantum x)) * quantum x"
    by (intro mult_right_mono) simp_all
  then show ?thesis using False by (simp add: nearest_def)
qed

lemma nearest_nonneg: "0 \<le> x \<Longrightarrow> 0 \<le> nearest x"
  using nearest_ge_grid [of 0 x] by simp

lemma nearest_nonpos: "x \<le> 0 \<Longrightarrow> nearest x \<le> 0"
  using nearest_le_grid [of x 0] by simp

text \<open>A power of two that is a multiple of the quantum.\<close>

lemma pow2_on_grid:
  assumes "max (binade x - 52) (- 1074) \<le> k"
  shows "\<exists>m::int. 2 powi k = of_int m * quantum x"
proof -
  define e where "e = max (binade x - 52) (- 1074)"
  have "(2::real) powi k = 2 powi (k - e) * 2 powi e"
    using power_int_add [of "2::real" "k - e" e] by simp
  moreover have "(2::real) powi (k - e) = of_int (2 ^ nat (k - e))"
    using assms by (simp add: e_def power_int_nonneg_exp)
  ultimately show ?thesis
    unfolding quantum_def e_def [symmetric] by metis
qed

lemma nearest_mono_pos:
  assumes "0 < x" "x \<le> y"
  shows "nearest x \<le> nearest y"
proof -
  define ex where "ex = max (binade x - 52) (- 1074)"
  define ey where "ey = max (binade y - 52) (- 1074)"
  have y: "0 < y" using assms by simp
  have bxy: "binade x \<le> binade y" using assms by (rule binade_mono)
  then have exy: "ex \<le> ey" by (simp add: ex_def ey_def)
  show ?thesis
  proof (cases "ex = ey")
    case True
    then have q: "quantum x = quantum y" by (simp add: quantum_def ex_def ey_def)
    have "x / quantum y \<le> y / quantum y"
      using assms by (simp add: divide_right_mono)
    then have "of_int (rne (x / quantum y)) * quantum y \<le> of_int (rne (y / quantum y)) * quantum y"
      by (intro mult_right_mono) (simp_all add: rne_mono)
    then show ?thesis using assms y by (simp add: nearest_def q)
  next
    case False
    then have lt: "ex < ey" using exy by simp
    have bx: "binade x < binade y" using lt bxy unfolding ex_def ey_def by linarith
    define P :: real where "P = 2 powi (binade y)"
    have big: "- 1074 < binade y - 52"
      using lt unfolding ex_def ey_def by linarith
    have gy: "max (binade y - 52) (- 1074) \<le> binade y"
      using big by simp
    have gx: "max (binade x - 52) (- 1074) \<le> binade y"
      using big bx by simp
    obtain my :: int where my: "P = of_int my * quantum y"
      using pow2_on_grid [OF gy] unfolding P_def by blast
    obtain mx :: int where mx: "P = of_int mx * quantum x"
      using pow2_on_grid [OF gx] unfolding P_def by blast
    have "P \<le> y" using binade_bounds(1) [of y] y by (simp add: P_def)
    then have 1: "P \<le> nearest y"
      using nearest_ge_grid [of my y] by (simp add: my)
    have "x < 2 powi (binade x + 1)"
      using binade_bounds(2) [of x] assms by simp
    also have "\<dots> \<le> P"
      unfolding P_def using bx by (intro power_int_increasing) simp_all
    finally have "x \<le> P" by simp
    then have 2: "nearest x \<le> P"
      using nearest_le_grid [of x mx] by (simp add: mx)
    from 1 2 show ?thesis by simp
  qed
qed

lemma nearest_mono:
  assumes "x \<le> y"
  shows "nearest x \<le> nearest y"
proof -
  consider "0 < x" | "x \<le> 0" "0 \<le> y" | "y < 0" by linarith
  then show ?thesis
  proof cases
    case 1
    then show ?thesis using assms by (rule nearest_mono_pos)
  next
    case 2
    then show ?thesis using nearest_nonpos [of x] nearest_nonneg [of y] by simp
  next
    case 3
    then have "nearest (- y) \<le> nearest (- x)"
      using assms by (intro nearest_mono_pos) simp_all
    then show ?thesis by (simp add: nearest_minus)
  qed
qed

lemma nearest_pow2:
  assumes "- 1074 \<le> k"
  shows "nearest (2 powi k) = 2 powi k"
proof -
  have b: "binade (2 powi k) = k"
    by (rule binade_eqI) (simp_all add: power_int_strict_increasing)
  obtain m :: int where m: "2 powi k = of_int m * quantum (2 powi k)"
    using pow2_on_grid [of "2 powi k" k] assms by (auto simp: b)
  show ?thesis
    using nearest_le_grid [of "2 powi k" m] nearest_ge_grid [of m "2 powi k"] m by simp
qed

lemma nearest_grid:
  assumes "x = of_int m * quantum x"
  shows "nearest x = x"
  using nearest_le_grid [of x m] nearest_ge_grid [of m x] assms by simp

lemma nearest_multiple:
  "\<exists>m::int. nearest x = of_int m * 2 powi (- 1074)"
proof (cases "x = 0")
  case True
  then have "nearest x = of_int 0 * 2 powi (- 1074)" by (simp add: nearest_def)
  then show ?thesis by blast
next
  case False
  define e where "e = max (binade x - 52) (- 1074)"
  have "(2::real) powi e = 2 powi (e + 1074) * 2 powi (- 1074)"
    using power_int_add [of "2::real" "e + 1074" "- 1074"] by simp
  moreover have "(2::real) powi (e + 1074) = of_int (2 ^ nat (e + 1074))"
    by (simp add: e_def power_int_nonneg_exp)
  ultimately have "nearest x
      = of_int (rne (x / quantum x) * 2 ^ nat (e + 1074)) * 2 powi (- 1074)"
    using False by (simp add: nearest_def quantum_def e_def [symmetric])
  then show ?thesis by blast
qed

lemma multiple_pos_ge:
  fixes x :: real
  assumes "x = of_int m * 2 powi e" "0 < x"
  shows "2 powi e \<le> x"
proof -
  define q :: real where "q = 2 powi e"
  have q: "0 < q" by (simp add: q_def)
  have "0 < m"
  proof (rule ccontr)
    assume "\<not> 0 < m"
    then have "real_of_int m \<le> 0" by simp
    then have "real_of_int m * q \<le> 0"
      using q by (simp add: mult_le_0_iff)
    then show False using assms by (simp add: q_def)
  qed
  then have "(1::real) \<le> of_int m" by simp
  then have "1 * q \<le> of_int m * q"
    using q by (intro mult_right_mono) simp_all
  then show ?thesis using assms by (simp add: q_def)
qed

lemma nearest_pos_ge:
  assumes "0 < nearest x"
  shows "2 powi (- 1074) \<le> nearest x"
  using nearest_multiple [of x] multiple_pos_ge assms by blast

lemma nearest_ge_pow2:
  assumes "2 powi k \<le> x" "- 1074 \<le> k"
  shows "2 powi k \<le> nearest x"
  using nearest_mono [OF assms(1)] nearest_pow2 [OF assms(2)] by simp

lemma nearest_le_pow2:
  assumes "x \<le> 2 powi k" "- 1074 \<le> k"
  shows "nearest x \<le> 2 powi k"
  using nearest_mono [OF assms(1)] nearest_pow2 [OF assms(2)] by simp

text \<open>Below half of the smallest positive double, a nonnegative number rounds to zero.\<close>

lemma nearest_underflow:
  assumes "0 \<le> x" "x < 2 powi (- 1075)"
  shows "nearest x = 0"
proof (cases "x = 0")
  case True
  then show ?thesis by (simp add: nearest_def)
next
  case False
  then have pos: "0 < x" using assms by simp
  have "binade x < - 1075"
  proof (rule ccontr)
    assume "\<not> binade x < - 1075"
    then have "(2::real) powi (- 1075) \<le> 2 powi (binade x)"
      by (intro power_int_increasing) simp_all
    then show False using binade_bounds(1) [of x] pos assms by simp
  qed
  then have q: "quantum x = 2 powi (- 1074)" by (simp add: quantum_def)
  have "x / 2 powi (- 1074) < 1 / 2"
  proof -
    have "(2::real) powi (- 1075) = 2 powi (- 1074) / 2"
      using power_int_add [of "2::real" "- 1075" 1] by simp
    then show ?thesis using assms by (simp add: pos_divide_less_eq)
  qed
  moreover have "0 \<le> x / 2 powi (- 1074)" using pos by simp
  ultimately have "\<lfloor>x / 2 powi (- 1074)\<rfloor> = 0" by (simp add: floor_eq_iff)
  then have "rne (x / 2 powi (- 1074)) = 0"
    using \<open>x / 2 powi (- 1074) < 1 / 2\<close> by (simp add: rne_def Let_def)
  then show ?thesis using False by (simp add: nearest_def q)
qed

text \<open>Rounding twice is rounding once.\<close>

lemma nearest_idem_pos:
  assumes "0 < x"
  shows "nearest (nearest x) = nearest x"
proof (cases "binade x < - 1074")
  case True
  then have q: "quantum x = 2 powi (- 1074)" by (simp add: quantum_def)
  have "x < 2 powi (binade x + 1)" using binade_bounds(2) [of x] assms by simp
  also have "\<dots> \<le> 2 powi (- 1074)"
    using True by (intro power_int_increasing) simp_all
  finally have "x \<le> 2 powi (- 1074)" by simp
  then have up: "nearest x \<le> 2 powi (- 1074)" by (rule nearest_le_pow2) simp
  have "0 \<le> nearest x" using assms by (intro nearest_nonneg) simp
  then consider "nearest x = 0" | "0 < nearest x" by linarith
  then show ?thesis
  proof cases
    case 1
    then show ?thesis by (simp add: nearest_def)
  next
    case 2
    have "nearest x = 2 powi (- 1074)"
      by (rule antisym [OF up nearest_pos_ge [OF 2]])
    moreover have "nearest (2 powi (- 1074)) = 2 powi (- 1074)"
      by (rule nearest_pow2) simp
    ultimately show ?thesis by (simp only:)
  qed
next
  case False
  define b where "b = binade x"
  have b: "- 1074 \<le> b" using False by (simp add: b_def)
  have lo: "2 powi b \<le> nearest x"
    using binade_bounds(1) [of x] assms b by (intro nearest_ge_pow2) (simp_all add: b_def)
  have "x \<le> 2 powi (b + 1)" using binade_bounds(2) [of x] assms by (simp add: b_def)
  then have hi: "nearest x \<le> 2 powi (b + 1)" using b by (intro nearest_le_pow2) simp_all
  have pos: "0 < nearest x"
    using lo zero_less_power_int [of "2::real" b] by linarith
  show ?thesis
  proof (cases "nearest x = 2 powi (b + 1)")
    case True
    then show ?thesis using nearest_pow2 [of "b + 1"] b by simp
  next
    case neq: False
    then have "\<bar>nearest x\<bar> < 2 powi (b + 1)" using hi pos by simp
    moreover have "2 powi b \<le> \<bar>nearest x\<bar>" using lo pos by simp
    ultimately have "binade (nearest x) = b" by (intro binade_eqI)
    then have "quantum (nearest x) = quantum x" by (simp add: quantum_def b_def)
    moreover have "nearest x = of_int (rne (x / quantum x)) * quantum x"
      using assms by (simp add: nearest_def)
    ultimately show ?thesis using nearest_grid [of "nearest x" "rne (x / quantum x)"] by simp
  qed
qed

lemma nearest_idem [simp]: "nearest (nearest x) = nearest x"
proof -
  consider "0 < x" | "x = 0" | "x < 0" by linarith
  then show ?thesis
  proof cases
    case 1
    then show ?thesis by (rule nearest_idem_pos)
  next
    case 2
    then show ?thesis by (simp add: nearest_def)
  next
    case 3
    then have "nearest (nearest (- x)) = nearest (- x)" by (intro nearest_idem_pos) simp
    then show ?thesis by (simp add: nearest_minus)
  qed
qed

text \<open>Doubling a double is exact.\<close>

lemma nearest_twice:
  assumes "nearest x = x"
  shows "nearest (2 * x) = 2 * x"
proof (cases "x = 0")
  case True
  then show ?thesis by (simp add: nearest_def)
next
  case False
  have b2: "binade (2 * x) = binade x + 1"
  proof (rule binade_eqI)
    have "(2::real) powi (binade x + 1) = 2 * 2 powi (binade x)"
      using power_int_add [of "2::real" "binade x" 1] by simp
    then show "2 powi (binade x + 1) \<le> \<bar>2 * x\<bar>"
      using binade_bounds(1) [OF False] by (simp add: abs_mult)
    have "(2::real) powi (binade x + 1 + 1) = 2 * 2 powi (binade x + 1)"
      using power_int_add [of "2::real" "binade x + 1" 1] by simp
    then show "\<bar>2 * x\<bar> < 2 powi (binade x + 1 + 1)"
      using binade_bounds(2) [OF False] by (simp add: abs_mult)
  qed
  have x: "x = of_int (rne (x / quantum x)) * quantum x"
    using assms False by (simp add: nearest_def)
  show ?thesis
  proof (cases "- 1074 \<le> binade x - 52")
    case True
    then have "quantum (2 * x) = 2 powi (binade x - 52 + 1)"
      by (simp add: quantum_def b2)
    also have "\<dots> = 2 * 2 powi (binade x - 52)"
      using power_int_add [of "2::real" "binade x - 52" 1] by simp
    also have "\<dots> = 2 * quantum x" using True by (simp add: quantum_def)
    finally have "quantum (2 * x) = 2 * quantum x" .
    then have "2 * x = of_int (rne (x / quantum x)) * quantum (2 * x)"
      using x by simp
    then show ?thesis by (rule nearest_grid)
  next
    case False
    then have "quantum (2 * x) = quantum x" by (simp add: quantum_def b2)
    then have "2 * x = of_int (2 * rne (x / quantum x)) * quantum (2 * x)"
      using x by simp
    then show ?thesis by (rule nearest_grid)
  qed
qed

text \<open>Integers of magnitude at most \<open>2\<^sup>5\<^sup>3\<close> are doubles.\<close>

lemma nearest_of_int:
  assumes "\<bar>m\<bar> \<le> 2 ^ 53"
  shows "nearest (of_int m) = of_int m"
proof (cases "m = 0")
  case True
  then show ?thesis by (simp add: nearest_def)
next
  case False
  define x :: real where "x = of_int m"
  have x0: "x \<noteq> 0" using False by (simp add: x_def)
  have "\<bar>x\<bar> \<le> 2 powi 53"
  proof -
    have "real_of_int \<bar>m\<bar> \<le> real_of_int (2 ^ 53)" using assms by (simp only: of_int_le_iff)
    then show ?thesis by (simp add: x_def)
  qed
  then consider "\<bar>x\<bar> = 2 powi 53" | "\<bar>x\<bar> < 2 powi 53" by linarith
  then show ?thesis
  proof cases
    case 1
    then consider "x = 2 powi 53" | "x = - (2 powi 53)" by (auto simp: abs_if split: if_splits)
    then show ?thesis
    proof cases
      case 1
      then show ?thesis using nearest_pow2 [of 53] by (simp add: x_def)
    next
      case 2
      then have "nearest x = - nearest (2 powi 53)" using nearest_minus [of "2 powi 53"] by simp
      then show ?thesis using nearest_pow2 [of 53] 2 by (simp add: x_def)
    qed
  next
    case 2
    have "binade x < 53"
    proof (rule ccontr)
      assume "\<not> binade x < 53"
      then have "(2::real) powi 53 \<le> 2 powi (binade x)"
        by (intro power_int_increasing) simp_all
      then show False using binade_bounds(1) [OF x0] 2 by simp
    qed
    moreover have "0 \<le> binade x"
    proof -
      have "1 \<le> \<bar>m\<bar>" using False by simp
      then have "(1::real) \<le> \<bar>x\<bar>" unfolding x_def by (metis of_int_1_le_iff of_int_abs)
      then have one: "1 < (2::real) powi (binade x + 1)"
        using binade_bounds(2) [OF x0] by linarith
      show ?thesis
      proof (rule ccontr)
        assume "\<not> 0 \<le> binade x"
        then have "(2::real) powi (binade x + 1) \<le> 2 powi 0"
          by (intro power_int_increasing) simp_all
        then show False using one by simp
      qed
    qed
    ultimately have e: "max (binade x - 52) (- 1074) = binade x - 52" "0 \<le> 52 - binade x"
      by simp_all
    have A: "(2::real) powi (52 - binade x) * 2 powi (binade x - 52) = 1"
      using power_int_add [of "2::real" "52 - binade x" "binade x - 52"] by simp
    have B: "(2::real) powi (52 - binade x) = of_int (2 ^ nat (52 - binade x))"
      using e(2) by (simp add: power_int_nonneg_exp)
    have Q: "quantum x = 2 powi (binade x - 52)"
      by (simp only: quantum_def e(1))
    have "of_int (m * 2 ^ nat (52 - binade x)) * quantum x
        = of_int m * (2 powi (52 - binade x) * 2 powi (binade x - 52))"
      unfolding Q B by simp
    then have "x = of_int (m * 2 ^ nat (52 - binade x)) * quantum x"
      unfolding A by (simp add: x_def)
    then show ?thesis unfolding x_def [symmetric] by (rule nearest_grid)
  qed
qed

text \<open>The value of a rounding, from the binade and the distance to a multiple of the quantum.\<close>

lemma rne_eqI:
  assumes "\<bar>q - of_int m\<bar> < 1 / 2"
  shows "rne q = m"
proof -
  have "of_int m - 1 / 2 < q" "q < of_int m + 1 / 2" using assms by linarith+
  then have "rne q \<le> m" "m \<le> rne q"
    using rne_lower [of q] rne_upper [of q] by linarith+
  then show ?thesis by simp
qed

lemma nearest_eqI:
  assumes "2 powi k \<le> \<bar>x\<bar>" "\<bar>x\<bar> < 2 powi (k + 1)"
    and "\<bar>x - of_int m * 2 powi (max (k - 52) (- 1074))\<bar> < 2 powi (max (k - 52) (- 1074)) / 2"
  shows "nearest x = of_int m * 2 powi (max (k - 52) (- 1074))"
proof -
  define q :: real where "q = 2 powi (max (k - 52) (- 1074))"
  have q: "0 < q" by (simp add: q_def)
  have b: "binade x = k" using assms(1,2) by (rule binade_eqI)
  then have qq: "quantum x = q" by (simp add: quantum_def q_def)
  have x0: "x \<noteq> 0"
  proof
    assume "x = 0"
    then have "2 powi k \<le> (0::real)" using assms(1) by simp
    moreover have "(0::real) < 2 powi k" by simp
    ultimately show False by linarith
  qed
  have "\<bar>x / q - of_int m\<bar> = \<bar>x - of_int m * q\<bar> / q"
    using q by (simp add: field_simps abs_divide)
  also have "\<dots> < 1 / 2"
    using assms(3) q unfolding q_def [symmetric] by (simp add: pos_divide_less_eq)
  finally have "rne (x / q) = m" by (rule rne_eqI)
  then show ?thesis using x0 by (simp add: nearest_def qq q_def)
qed

subsection \<open>Order and sign of rounded results\<close>

lemma jsnum_le_trans: "a \<le> b \<Longrightarrow> b \<le> c \<Longrightarrow> a \<le> (c::jsnum)"
  by (cases a; cases b; cases c) simp_all

lemma jsnum_less_le_trans: "a < b \<Longrightarrow> b \<le> c \<Longrightarrow> a < (c::jsnum)"
  by (cases a; cases b; cases c) simp_all

lemma jsnum_le_less_trans: "a \<le> b \<Longrightarrow> b < c \<Longrightarrow> a < (c::jsnum)"
  by (cases a; cases b; cases c) simp_all

lemma jsnum_less_imp_le: "a < b \<Longrightarrow> a \<le> (b::jsnum)"
  by (cases a; cases b) simp_all

lemma jsnum_le_refl: "a \<noteq> NaN \<Longrightarrow> a \<le> (a::jsnum)"
  by (cases a) simp_all

lemma jsnum_le_not_NaN: "a \<le> (b::jsnum) \<Longrightarrow> a \<noteq> NaN \<and> b \<noteq> NaN"
  by (cases a; cases b) simp_all

lemma Fin0_le_iff: "Fin 0 \<le> v \<longleftrightarrow> v = PInf \<or> (\<exists>y\<ge>0. v = Fin y)"
  by (cases v) simp_all

lemma Fin0_less_iff: "Fin 0 < v \<longleftrightarrow> v = PInf \<or> (\<exists>y>0. v = Fin y)"
  by (cases v) simp_all

lemma dbl_cases: "dbl x = PInf \<or> dbl x = NInf \<or> dbl x = Fin (nearest x)"
  by (simp add: dbl_def Let_def)

lemma dbl_not_NaN [simp]: "dbl x \<noteq> NaN"
  by (simp add: dbl_def Let_def)

lemma rnd_eq_NaN_iff [simp]: "rnd v = NaN \<longleftrightarrow> v = NaN"
  by (cases v) simp_all

lemma dbl_0 [simp]: "dbl 0 = Fin 0"
  by (simp add: dbl_def nearest_def)

lemma dbl_mono:
  assumes "x \<le> y"
  shows "dbl x \<le> dbl y"
proof -
  have m: "nearest x \<le> nearest y" using assms by (rule nearest_mono)
  have p: "(0::real) < 2 powi 1024" by simp
  have xn: "nearest x \<le> 0" if "x \<le> 0" using that by (rule nearest_nonpos)
  have yn: "nearest y \<le> 0" if "y \<le> 0" using that by (rule nearest_nonpos)
  have xp: "0 \<le> nearest x" if "0 \<le> x" using that by (rule nearest_nonneg)
  have yp: "0 \<le> nearest y" if "0 \<le> y" using that by (rule nearest_nonneg)
  consider "2 powi 1024 \<le> nearest y" | "nearest y \<le> - (2 powi 1024)"
    | "\<bar>nearest y\<bar> < 2 powi 1024" by linarith
  then show ?thesis
  proof cases
    case 1
    then have "0 < y" using yn p by (meson not_le order_trans not_less)
    then have "dbl y = PInf" using 1 p by (simp add: dbl_def Let_def)
    then show ?thesis using dbl_cases [of x] by auto
  next
    case 2
    then have y: "\<not> 0 < y" using yp p by (meson not_le order_trans not_less less_imp_le neg_less_0_iff_less)
    then have "\<not> 0 < x" using assms by simp
    moreover have "2 powi 1024 \<le> \<bar>nearest x\<bar>" using 2 m by linarith
    moreover have "2 powi 1024 \<le> \<bar>nearest y\<bar>" using 2 by linarith
    ultimately show ?thesis using y by (simp add: dbl_def Let_def)
  next
    case 3
    then have dy: "dbl y = Fin (nearest y)" by (simp add: dbl_def Let_def)
    consider "nearest x \<le> - (2 powi 1024)" | "\<bar>nearest x\<bar> < 2 powi 1024"
      using m 3 by linarith
    then show ?thesis
    proof cases
      case 1
      then have "\<not> 0 < x" using xp p by (meson not_le order_trans not_less less_imp_le neg_less_0_iff_less)
      moreover have "2 powi 1024 \<le> \<bar>nearest x\<bar>" using 1 by linarith
      ultimately have "dbl x = NInf" by (simp add: dbl_def Let_def)
      then show ?thesis by (simp add: dy)
    next
      case 2
      then have "dbl x = Fin (nearest x)" by (simp add: dbl_def Let_def)
      then show ?thesis using m by (simp add: dy)
    qed
  qed
qed

lemma dbl_nonneg: "0 \<le> x \<Longrightarrow> Fin 0 \<le> dbl x"
  using dbl_mono [of 0 x] by simp

lemma dbl_pos:
  assumes "2 powi (- 1074) \<le> x"
  shows "Fin 0 < dbl x"
proof -
  have "(0::real) < 2 powi (- 1074)" by (rule zero_less_power_int) simp
  moreover have "2 powi (- 1074) \<le> nearest x" using assms by (rule nearest_ge_pow2) simp
  ultimately have n: "0 < nearest x" by linarith
  have "0 < x" using assms \<open>(0::real) < 2 powi (- 1074)\<close> by linarith
  then show ?thesis using n by (simp add: dbl_def Let_def)
qed

lemma dbl_between:
  assumes "2 powi a \<le> x" "x \<le> 2 powi b" "- 1074 \<le> a" "b < 1024"
  shows "\<exists>y. dbl x = Fin y \<and> 2 powi a \<le> y \<and> y \<le> 2 powi b"
proof -
  have lo: "2 powi a \<le> nearest x" using assms(1,3) by (rule nearest_ge_pow2)
  have ab: "a \<le> b"
  proof (rule ccontr)
    assume "\<not> a \<le> b"
    then have "(2::real) powi b < 2 powi a" by (intro power_int_strict_increasing) simp_all
    then show False using assms(1,2) by linarith
  qed
  have hi: "nearest x \<le> 2 powi b" using assms(2) by (rule nearest_le_pow2) (use ab assms(3) in simp)
  have "(2::real) powi b < 2 powi 1024"
    using assms(4) by (intro power_int_strict_increasing) simp_all
  moreover have "(0::real) < 2 powi a" by (rule zero_less_power_int) simp
  ultimately have "\<bar>nearest x\<bar> < 2 powi 1024" using lo hi by linarith
  then have "dbl x = Fin (nearest x)" by (simp add: dbl_def Let_def)
  then show ?thesis using lo hi by blast
qed

lemma dbl_overflow:
  assumes "2 powi 1024 \<le> x"
  shows "dbl x = PInf"
proof -
  have "2 powi 1024 \<le> nearest x" using assms by (rule nearest_ge_pow2) simp
  moreover have "(0::real) < 2 powi 1024" by (rule zero_less_power_int) simp
  ultimately have "2 powi 1024 \<le> \<bar>nearest x\<bar>" "0 < x" using assms by linarith+
  then show ?thesis by (simp add: dbl_def Let_def)
qed

lemma dbl_underflow:
  assumes "0 \<le> x" "x < 2 powi (- 1075)"
  shows "dbl x = Fin 0"
proof -
  have "nearest x = 0" using assms by (rule nearest_underflow)
  moreover have "(0::real) < 2 powi 1024" by (rule zero_less_power_int) simp
  ultimately show ?thesis by (simp add: dbl_def Let_def)
qed

lemma dbl_of_double:
  assumes "dbl x = Fin y"
  shows "dbl y = Fin y"
proof -
  have "y = nearest x" "\<not> 2 powi 1024 \<le> \<bar>nearest x\<bar>"
    using assms by (auto simp: dbl_def Let_def split: if_splits)
  then show ?thesis by (simp add: dbl_def Let_def)
qed

lemma rnd_idem [simp]: "rnd (rnd v) = rnd v"
proof (cases v)
  case (Fin x)
  then show ?thesis using dbl_cases [of x] dbl_of_double [of x] by auto
qed simp_all

lemma is_double_rnd [simp]: "is_double (rnd v)"
  by (simp add: is_double_def)

lemma is_double_ops [simp]:
  "is_double (fadd a b)" "is_double (fsub a b)" "is_double (fmul a b)" "is_double (fdiv a b)"
  "is_double (dbl x)"
  using is_double_rnd [of "Fin x"] by (simp_all add: fadd_def fsub_def fmul_def fdiv_def)

lemma is_double_special [simp]: "is_double NaN" "is_double PInf" "is_double NInf"
  by (simp_all add: is_double_def)

lemma is_double_Fin: "is_double (Fin x) \<longleftrightarrow> nearest x = x \<and> \<bar>x\<bar> < 2 powi 1024"
  by (auto simp: is_double_def dbl_def Let_def)

lemma rnd_mono:
  assumes "u \<le> v"
  shows "rnd u \<le> rnd v"
proof (cases u)
  case (Fin a)
  then show ?thesis using assms dbl_mono dbl_cases [of a] by (cases v) auto
next
  case NInf
  then show ?thesis using assms
  proof (cases v)
    case (Fin b)
    then show ?thesis using NInf dbl_cases [of b] by auto
  qed simp_all
qed (use assms in \<open>cases v; simp\<close>)+

subsection \<open>Each operation is monotone\<close>

lemma times_mono_left:
  assumes "0 < c" "u \<le> v"
  shows "Fin c * u \<le> Fin c * v"
  using assms by (cases u; cases v) simp_all

lemma times_mono_right:
  assumes "0 < t" "u \<le> v"
  shows "u * Fin t \<le> v * Fin t"
  using assms by (cases u; cases v) simp_all

lemma times_mono_PInf:
  assumes "Fin 0 < u" "u \<le> v"
  shows "PInf * u \<le> PInf * v"
  using assms by (cases u; cases v) (auto split: if_splits)

lemma minus_mono_left:
  assumes "u \<le> v"
  shows "u - Fin t \<le> v - Fin t"
  using assms by (cases u; cases v) simp_all

lemma plus_mono_left:
  assumes "Fin 0 \<le> w" "Fin 0 \<le> u" "u \<le> v"
  shows "u + w \<le> v + w"
  using assms by (cases u; cases v; cases w) simp_all

lemma plus_mono_right:
  assumes "Fin 0 \<le> w" "Fin 0 \<le> u" "u \<le> v"
  shows "w + u \<le> w + v"
  using assms by (cases u; cases v; cases w) simp_all

lemma divide_mono_left:
  assumes "0 < d" "u \<le> v"
  shows "u / Fin d \<le> v / Fin d"
  using assms by (cases u; cases v) (simp_all add: divide_right_mono)

lemma fmul_mono_left:
  assumes "0 < c" "u \<le> v"
  shows "fmul (Fin c) u \<le> fmul (Fin c) v"
  unfolding fmul_def by (intro rnd_mono times_mono_left assms)

lemma fmul_mono_right:
  assumes "0 < t" "u \<le> v"
  shows "fmul u (Fin t) \<le> fmul v (Fin t)"
  unfolding fmul_def by (intro rnd_mono times_mono_right assms)

lemma fmul_mono_pos:
  assumes "Fin 0 < A" "Fin 0 < u" "u \<le> v"
  shows "fmul A u \<le> fmul A v"
proof (cases A)
  case (Fin c)
  then show ?thesis using assms fmul_mono_left [of c u v] by simp
next
  case PInf
  then show ?thesis unfolding fmul_def using assms by (intro rnd_mono) (simp add: times_mono_PInf)
qed (use assms in simp_all)

lemma fsub_mono_left:
  assumes "u \<le> v"
  shows "fsub u (Fin t) \<le> fsub v (Fin t)"
  unfolding fsub_def by (intro rnd_mono minus_mono_left assms)

lemma fadd_mono_left:
  assumes "Fin 0 \<le> w" "Fin 0 \<le> u" "u \<le> v"
  shows "fadd u w \<le> fadd v w"
  unfolding fadd_def by (intro rnd_mono plus_mono_left assms)

lemma fadd_mono_right:
  assumes "Fin 0 \<le> w" "Fin 0 \<le> u" "u \<le> v"
  shows "fadd w u \<le> fadd w v"
  unfolding fadd_def by (intro rnd_mono plus_mono_right assms)

lemma fdiv_mono_left:
  assumes "0 < d" "u \<le> v"
  shows "fdiv u (Fin d) \<le> fdiv v (Fin d)"
  unfolding fdiv_def by (intro rnd_mono divide_mono_left assms)

subsection \<open>Signs\<close>

lemma fmul_zero_left [simp]: "fmul (Fin 0) (Fin t) = Fin 0"
  by (simp add: fmul_def)

lemma fmul_zero_right [simp]: "fmul (Fin c) (Fin 0) = Fin 0"
  by (simp add: fmul_def)

lemma fmul_nonneg_left:
  assumes "0 < c" "Fin 0 \<le> v"
  shows "Fin 0 \<le> fmul (Fin c) v"
  using fmul_mono_left [OF assms] by simp

lemma fmul_nonneg_right:
  assumes "0 < t" "Fin 0 \<le> u"
  shows "Fin 0 \<le> fmul u (Fin t)"
  using fmul_mono_right [OF assms] by simp

lemma fmul_pos_nonneg:
  assumes "Fin 0 < A" "Fin 0 < u"
  shows "Fin 0 \<le> fmul A u"
proof -
  consider "A = PInf" | a where "A = Fin a" "0 < a" using assms(1) by (auto simp: Fin0_less_iff)
  then show ?thesis
  proof cases
    case 1
    then show ?thesis using assms(2) by (auto simp: Fin0_less_iff fmul_def)
  next
    case 2
    then show ?thesis using fmul_nonneg_left [of a u] assms(2) by (simp add: jsnum_less_imp_le)
  qed
qed

lemma fdiv_nonneg:
  assumes "0 < d" "Fin 0 \<le> u"
  shows "Fin 0 \<le> fdiv u (Fin d)"
proof -
  have "fdiv (Fin 0) (Fin d) = Fin 0" using assms(1) by (simp add: fdiv_def)
  then show ?thesis using fdiv_mono_left [OF assms] by simp
qed

lemma fadd_nonneg:
  assumes "Fin 0 \<le> u" "Fin 0 \<le> v"
  shows "Fin 0 \<le> fadd u v"
proof -
  have "fadd (Fin 0) v \<le> fadd u v"
    using assms by (intro fadd_mono_left) simp_all
  moreover have "fadd (Fin 0) (Fin 0) \<le> fadd (Fin 0) v"
    using assms by (intro fadd_mono_right) simp_all
  moreover have "fadd (Fin 0) (Fin 0) = Fin 0" by (simp add: fadd_def)
  ultimately show ?thesis using jsnum_le_trans by metis
qed

text \<open>Two doubles differ by a multiple of the smallest positive double.\<close>

lemma double_multiple:
  assumes "nearest x = x"
  shows "\<exists>m::int. x = of_int m * 2 powi (- 1074)"
  using nearest_multiple [of x] assms by simp

lemma double_difference:
  assumes "nearest a = a" "nearest b = b" "b < a"
  shows "2 powi (- 1074) \<le> a - b"
proof -
  obtain ma :: int where ma: "a = of_int ma * 2 powi (- 1074)"
    using double_multiple [OF assms(1)] by blast
  obtain mb :: int where mb: "b = of_int mb * 2 powi (- 1074)"
    using double_multiple [OF assms(2)] by blast
  have "a - b = of_int (ma - mb) * 2 powi (- 1074)"
    by (subst ma, subst mb) (simp only: of_int_diff left_diff_distrib)
  moreover have "0 < a - b" using assms(3) by simp
  ultimately show ?thesis by (rule multiple_pos_ge)
qed

lemma fsub_double_pos:
  assumes "is_double (Fin a)" "is_double (Fin b)" "b < a"
  shows "Fin 0 < fsub (Fin a) (Fin b)"
proof -
  have "2 powi (- 1074) \<le> a - b"
    using assms by (intro double_difference) (simp_all add: is_double_Fin)
  then show ?thesis unfolding fsub_def by (simp only: minus_jsnum.simps rnd.simps dbl_pos)
qed

lemma double_pos_ge:
  assumes "is_double (Fin t)" "0 < t"
  shows "2 powi (- 1074) \<le> t"
proof -
  have "0 < nearest t" "nearest t = t" using assms by (simp_all add: is_double_Fin)
  then show ?thesis using nearest_pos_ge [of t] by simp
qed

text \<open>Literals.\<close>

lemma dbl_of_int:
  assumes "\<bar>m\<bar> \<le> 2 ^ 53"
  shows "dbl (of_int m) = Fin (of_int m)"
proof -
  have n: "nearest (real_of_int m) = of_int m" using assms by (rule nearest_of_int)
  have "real_of_int \<bar>m\<bar> \<le> real_of_int (2 ^ 53)" using assms by (simp only: of_int_le_iff)
  then have "\<bar>real_of_int m\<bar> \<le> 2 powi 53" by simp
  moreover have "(2::real) powi 53 < 2 powi 1024"
    by (intro power_int_strict_increasing) simp_all
  ultimately have "\<not> 2 powi 1024 \<le> \<bar>real_of_int m\<bar>" by linarith
  then show ?thesis by (simp only: dbl_def Let_def n if_False)
qed

lemma dbl_2 [simp]: "dbl 2 = Fin 2"
  using dbl_of_int [of 2] by simp

lemma dbl_4 [simp]: "dbl 4 = Fin 4"
  using dbl_of_int [of 4] by simp

lemma dbl_1000 [simp]: "dbl 1000 = Fin 1000"
  using dbl_of_int [of 1000] by simp

lemma dbl_lit:
  assumes "2 powi a \<le> x" "x \<le> 2 powi b" "- 1074 \<le> a" "b < 1024"
  shows "\<exists>c>0. dbl x = Fin c"
proof -
  obtain y where "dbl x = Fin y" "2 powi a \<le> y"
    using dbl_between [OF assms] by blast
  moreover have "(0::real) < 2 powi a" by (rule zero_less_power_int) simp
  ultimately have "0 < y \<and> dbl x = Fin y" by linarith
  then show ?thesis by blast
qed

lemma lit_1069: "\<exists>c>0. dbl 10.69 = Fin c"
  by (rule dbl_lit [where a = 3 and b = 4]) simp_all

lemma lit_2466: "\<exists>c>0. dbl 24.66 = Fin c"
  by (rule dbl_lit [where a = 4 and b = 5]) simp_all

lemma lit_785: "\<exists>c>0. dbl 7.85 = Fin c"
  by (rule dbl_lit [where a = 2 and b = 3]) simp_all

lemma lit_002466: "\<exists>c>0. dbl 0.02466 = Fin c"
  by (rule dbl_lit [where a = "- 6" and b = "- 5"]) simp_all

lemma lit_IN_TO_MM: "\<exists>c>0. IN_TO_MM_fp = Fin c"
  unfolding IN_TO_MM_fp_def by (rule dbl_lit [where a = 4 and b = 5]) simp_all

lemma lit_FT_TO_MM: "\<exists>c>0. FT_TO_MM_fp = Fin c"
  unfolding FT_TO_MM_fp_def by (rule dbl_lit [where a = 8 and b = 9]) simp_all

lemma lit_M_TO_MM: "\<exists>c>0. M_TO_MM_fp = Fin c"
  unfolding M_TO_MM_fp_def by (intro exI [of _ 1000]) simp

lemma lit_STEEL: "\<exists>c>0. STEEL_DENSITY_KG_PER_MM3_fp = Fin c"
  unfolding STEEL_DENSITY_KG_PER_MM3_fp_def
  by (rule dbl_lit [where a = "- 17" and b = "- 16"]) simp_all

lemma lit_quarter_pi: "\<exists>c>0. fdiv Math_PI_fp (dbl 4) = Fin c"
proof -
  have "2 powi 1 \<le> pi" "pi \<le> 2 powi 2" using pi_ge_two pi_less_4 by simp_all
  then obtain p where p: "dbl pi = Fin p" "2 powi 1 \<le> p" "p \<le> 2 powi 2"
    using dbl_between [of 1 pi 2] by auto
  have "2 powi (- 1) \<le> p / 4" "p / 4 \<le> 2 powi 0" using p by simp_all
  then obtain c where "dbl (p / 4) = Fin c" "0 < c"
    using dbl_lit [of "- 1" "p / 4" 0] by auto
  then show ?thesis by (simp add: Math_PI_fp_def fdiv_def p)
qed

text \<open>Twice a double, as the validity checks compute it.\<close>

lemma dbl_double:
  assumes "nearest x = x"
  shows "dbl x = PInf \<or> dbl x = NInf \<or> dbl x = Fin x"
  using dbl_cases [of x] assms by simp

lemma fmul_2:
  assumes "is_double (Fin t)" "0 < t"
  shows "fmul (dbl 2) (Fin t) = PInf \<or> fmul (dbl 2) (Fin t) = Fin (2 * t)"
proof -
  have "nearest (2 * t) = 2 * t" using assms by (intro nearest_twice) (simp add: is_double_Fin)
  then have "dbl (2 * t) = PInf \<or> dbl (2 * t) = NInf \<or> dbl (2 * t) = Fin (2 * t)"
    by (rule dbl_double)
  moreover have "Fin 0 \<le> dbl (2 * t)" using assms(2) by (intro dbl_nonneg) simp
  ultimately have "dbl (2 * t) = PInf \<or> dbl (2 * t) = Fin (2 * t)" by auto
  then show ?thesis by (simp add: fmul_def)
qed

lemma valid_dims:
  assumes "is_double T" "Fin 0 < T" "fmul (dbl 2) T < OD"
  shows "\<exists>t. T = Fin t \<and> 0 < t \<and> is_double (Fin t) \<and> Fin (2 * t) < OD
            \<and> fmul (dbl 2) T = Fin (2 * t)"
proof (cases T)
  case (Fin t)
  then have t: "is_double (Fin t)" "0 < t" using assms by simp_all
  consider "fmul (dbl 2) T = PInf" | "fmul (dbl 2) T = Fin (2 * t)"
    using fmul_2 [OF t] Fin by auto
  then show ?thesis
  proof cases
    case 1
    then show ?thesis using assms(3) by (cases OD) simp_all
  next
    case 2
    then show ?thesis using assms(3) t Fin by simp
  qed
next
  case PInf
  then have "fmul (dbl 2) T = PInf" by (simp add: fmul_def)
  then show ?thesis using assms(3) by (cases OD) simp_all
qed (use assms in simp_all)

subsection \<open>The rounded third version\<close>

lemma mm_fp_double:
  assumes "is_double x"
  shows "is_double (mm_fp u (n x))"
  using assms by (cases x) (simp_all add: mm_fp_def)

lemma mm_fp_mono:
  assumes "a \<le> b"
  shows "mm_fp u (n (Fin a)) \<le> mm_fp u (n (Fin b))"
proof -
  obtain c where c: "0 < c" "IN_TO_MM_fp = Fin c" using lit_IN_TO_MM by blast
  show ?thesis
    using assms fmul_mono_right [of c "Fin a" "Fin b"] c by (simp add: mm_fp_def)
qed

lemma result_fp_round_ok:
  "ok3 (result_fp Round u od s w h t L)
     \<longleftrightarrow> Fin 0 < mm_fp u (n t) \<and> fmul (dbl 2) (mm_fp u (n t)) < mm_fp u (n od)"
  by (simp add: result_fp_def Let_def invalid_def)

lemma result_fp_round_weight:
  assumes "ok3 (result_fp Round u od s w h t L)"
  shows "wPerM (result_fp Round u od s w h t L)
     = fmul (fmul (dbl 0.02466) (fsub (mm_fp u (n od)) (mm_fp u (n t)))) (mm_fp u (n t))"
  using assms by (simp add: result_fp_def Let_def invalid_def split: if_splits)

lemma result_fp_square_ok:
  "ok3 (result_fp Square u od s w h t L)
     \<longleftrightarrow> Fin 0 < mm_fp u (n t) \<and> fmul (dbl 2) (mm_fp u (n t)) < mm_fp u (n s)"
  by (simp add: result_fp_def Let_def invalid_def)

lemma result_fp_square_weight:
  assumes "ok3 (result_fp Square u od s w h t L)"
  shows "wPerM (result_fp Square u od s w h t L)
     = fdiv (fmul (fmul (fmul (dbl 4) (mm_fp u (n t))) (fsub (mm_fp u (n s)) (mm_fp u (n t))))
               (dbl 7.85)) (dbl 1000)"
  using assms by (simp add: result_fp_def Let_def invalid_def split: if_splits)

lemma result_fp_rectangle_ok:
  "ok3 (result_fp Rectangle u od s w h t L)
     \<longleftrightarrow> Fin 0 < mm_fp u (n t) \<and> fmul (dbl 2) (mm_fp u (n t)) < mm_fp u (n w)
         \<and> fmul (dbl 2) (mm_fp u (n t)) < mm_fp u (n h)"
  by (simp add: result_fp_def Let_def invalid_def)

lemma result_fp_rectangle_weight:
  assumes "ok3 (result_fp Rectangle u od s w h t L)"
  shows "wPerM (result_fp Rectangle u od s w h t L)
     = fdiv (fmul (fmul (fmul (dbl 2) (mm_fp u (n t)))
                       (fsub (fadd (mm_fp u (n w)) (mm_fp u (n h))) (fmul (dbl 2) (mm_fp u (n t)))))
               (dbl 7.85)) (dbl 1000)"
  using assms by (simp add: result_fp_def Let_def invalid_def split: if_splits)

text \<open>The three formulas on normalised dimensions.\<close>

lemma fsub_valid_nonneg:
  assumes "0 < t" "Fin t < OD"
  shows "Fin 0 \<le> fsub OD (Fin t)"
proof -
  have "fsub (Fin t) (Fin t) \<le> fsub OD (Fin t)"
    using assms(2) by (intro fsub_mono_left jsnum_less_imp_le)
  then show ?thesis by (simp add: fsub_def)
qed

lemma fsub_valid_pos:
  assumes "is_double OD" "is_double (Fin t)" "Fin t < OD"
  shows "Fin 0 < fsub OD (Fin t)"
proof (cases OD)
  case (Fin a)
  then show ?thesis using assms fsub_double_pos [of a t] by simp
next
  case PInf
  then show ?thesis by (simp add: fsub_def)
qed (use assms in simp_all)

lemma less_twice:
  assumes "0 < t" "Fin (2 * t) < OD"
  shows "Fin t < OD"
  using assms by (cases OD) simp_all

lemma round_formula_nonneg:
  assumes "0 < c" "0 < t" "Fin t < OD"
  shows "Fin 0 \<le> fmul (fmul (Fin c) (fsub OD (Fin t))) (Fin t)"
  by (intro fmul_nonneg_right fmul_nonneg_left fsub_valid_nonneg assms)

lemma round_formula_mono:
  assumes "0 < c" "0 < t" "a \<le> b"
  shows "fmul (fmul (Fin c) (fsub a (Fin t))) (Fin t) \<le> fmul (fmul (Fin c) (fsub b (Fin t))) (Fin t)"
  by (intro fmul_mono_right fmul_mono_left fsub_mono_left assms)

lemma four_t_pos:
  assumes "is_double (Fin t)" "0 < t"
  shows "Fin 0 < fmul (Fin 4) (Fin t)"
proof -
  have "2 powi (- 1074) \<le> t" using assms by (rule double_pos_ge)
  then have "2 powi (- 1074) \<le> 4 * t" using assms(2) by linarith
  then have "Fin 0 < dbl (4 * t)" by (rule dbl_pos)
  then show ?thesis by (simp add: fmul_def)
qed

lemma square_formula_nonneg:
  assumes "0 < c" "0 < d" "0 < t" "is_double (Fin t)" "is_double S" "Fin t < S"
  shows "Fin 0 \<le> fdiv (fmul (fmul (fmul (Fin 4) (Fin t)) (fsub S (Fin t))) (Fin c)) (Fin d)"
  by (intro fdiv_nonneg fmul_nonneg_right fmul_pos_nonneg four_t_pos fsub_valid_pos assms)

lemma square_formula_mono:
  assumes "0 < c" "0 < d" "0 < t" "is_double (Fin t)" "is_double a" "Fin t < a" "a \<le> b"
  shows "fdiv (fmul (fmul (fmul (Fin 4) (Fin t)) (fsub a (Fin t))) (Fin c)) (Fin d)
       \<le> fdiv (fmul (fmul (fmul (Fin 4) (Fin t)) (fsub b (Fin t))) (Fin c)) (Fin d)"
  by (intro fdiv_mono_left fmul_mono_right fmul_mono_pos four_t_pos fsub_valid_pos
      fsub_mono_left assms)

lemma sum_ge_twice:
  assumes "0 < t" "dbl (2 * t) = Fin (2 * t)" "Fin (2 * t) < W" "Fin (2 * t) < H"
  shows "Fin (2 * t) \<le> fadd W H"
proof -
  have W: "Fin 0 \<le> W" "Fin (2 * t) \<le> W" and H: "Fin 0 \<le> H"
    using assms by (cases W; cases H; simp)+
  have "fadd (Fin (2 * t)) (Fin 0) \<le> fadd W (Fin 0)"
    using assms(1) W by (intro fadd_mono_left) simp_all
  moreover have "fadd W (Fin 0) \<le> fadd W H"
    using W H by (intro fadd_mono_right) simp_all
  moreover have "fadd (Fin (2 * t)) (Fin 0) = Fin (2 * t)"
    using assms(2) by (simp add: fadd_def)
  ultimately show ?thesis using jsnum_le_trans by metis
qed

lemma rectangle_formula_nonneg:
  assumes "0 < c" "0 < d" "0 < t" "dbl (2 * t) = Fin (2 * t)" "Fin (2 * t) < W" "Fin (2 * t) < H"
  shows "Fin 0 \<le> fdiv (fmul (fmul (Fin (2 * t)) (fsub (fadd W H) (Fin (2 * t)))) (Fin c)) (Fin d)"
proof -
  have "fsub (Fin (2 * t)) (Fin (2 * t)) \<le> fsub (fadd W H) (Fin (2 * t))"
    by (intro fsub_mono_left sum_ge_twice assms)
  then have "Fin 0 \<le> fsub (fadd W H) (Fin (2 * t))" by (simp add: fsub_def)
  then show ?thesis
    using assms(1-3) by (intro fdiv_nonneg fmul_nonneg_right fmul_nonneg_left) simp_all
qed

lemma rectangle_formula_mono:
  assumes "0 < c" "0 < d" "0 < t" "x \<le> y"
  shows "fdiv (fmul (fmul (Fin (2 * t)) (fsub x (Fin (2 * t)))) (Fin c)) (Fin d)
       \<le> fdiv (fmul (fmul (Fin (2 * t)) (fsub y (Fin (2 * t)))) (Fin c)) (Fin d)"
  using assms by (intro fdiv_mono_left fmul_mono_right fmul_mono_left fsub_mono_left) simp_all

lemma result_fp_nonneg:
  assumes "is_double od" "is_double s" "is_double w" "is_double h" "is_double t"
    and "ok3 (result_fp p u od s w h t L)"
  shows "Fin 0 \<le> wPerM (result_fp p u od s w h t L)"
proof -
  obtain c where c: "0 < c" "dbl 0.02466 = Fin c" using lit_002466 by blast
  obtain k where k: "0 < k" "dbl 7.85 = Fin k" using lit_785 by blast
  have T: "is_double (mm_fp u (n t))" using assms(5) by (rule mm_fp_double)
  have d: "(0::real) < 1000" by simp
  show ?thesis
  proof (cases p)
    case Round
    have v: "ok3 (result_fp Round u od s w h t L)" using assms(6) unfolding Round .
    then have ok: "Fin 0 < mm_fp u (n t)" "fmul (dbl 2) (mm_fp u (n t)) < mm_fp u (n od)"
      by (simp_all add: result_fp_round_ok)
    obtain r where r: "mm_fp u (n t) = Fin r" "0 < r" "Fin (2 * r) < mm_fp u (n od)"
      using valid_dims [OF T ok] by blast
    show ?thesis
      unfolding Round result_fp_round_weight [OF v] r(1) c(2)
      by (rule round_formula_nonneg [OF c(1) r(2) less_twice [OF r(2,3)]])
  next
    case Square
    have v: "ok3 (result_fp Square u od s w h t L)" using assms(6) unfolding Square .
    then have ok: "Fin 0 < mm_fp u (n t)" "fmul (dbl 2) (mm_fp u (n t)) < mm_fp u (n s)"
      by (simp_all add: result_fp_square_ok)
    obtain r where r: "mm_fp u (n t) = Fin r" "0 < r" "is_double (Fin r)"
        "Fin (2 * r) < mm_fp u (n s)"
      using valid_dims [OF T ok] by blast
    show ?thesis
      unfolding Square result_fp_square_weight [OF v] r(1) k(2) dbl_4 dbl_1000
      by (rule square_formula_nonneg [OF k(1) d r(2,3) mm_fp_double [OF assms(2)]
            less_twice [OF r(2,4)]])
  next
    case Rectangle
    have v: "ok3 (result_fp Rectangle u od s w h t L)" using assms(6) unfolding Rectangle .
    then have ok: "Fin 0 < mm_fp u (n t)" "fmul (dbl 2) (mm_fp u (n t)) < mm_fp u (n w)"
        "fmul (dbl 2) (mm_fp u (n t)) < mm_fp u (n h)"
      by (simp_all add: result_fp_rectangle_ok)
    obtain r where r: "mm_fp u (n t) = Fin r" "0 < r"
        "Fin (2 * r) < mm_fp u (n w)" "fmul (dbl 2) (mm_fp u (n t)) = Fin (2 * r)"
      using valid_dims [OF T ok(1,2)] by blast
    have h: "Fin (2 * r) < mm_fp u (n h)" using ok(3) unfolding r(4) .
    have e: "dbl (2 * r) = Fin (2 * r)" using r(4) by (simp add: r(1) fmul_def)
    show ?thesis
      unfolding Rectangle result_fp_rectangle_weight [OF v] r(4) k(2) dbl_1000
      by (rule rectangle_formula_nonneg [OF k(1) d r(2) e r(3) h])
  qed
qed

lemma nonneg_of_gt:
  assumes "0 < r" "Fin (2 * r) < H"
  shows "Fin 0 \<le> H"
  using assms by (cases H) simp_all

lemma result_fp_round_mono:
  assumes "is_double t" "a \<le> b" "ok3 (result_fp Round u (Fin a) s w h t L)"
  shows "ok3 (result_fp Round u (Fin b) s w h t L)
       \<and> wPerM (result_fp Round u (Fin a) s w h t L) \<le> wPerM (result_fp Round u (Fin b) s w h t L)"
proof -
  obtain c where c: "0 < c" "dbl 0.02466 = Fin c" using lit_002466 by blast
  have T: "is_double (mm_fp u (n t))" using assms(1) by (rule mm_fp_double)
  have ab: "mm_fp u (n (Fin a)) \<le> mm_fp u (n (Fin b))" using assms(2) by (rule mm_fp_mono)
  have ok: "Fin 0 < mm_fp u (n t)" "fmul (dbl 2) (mm_fp u (n t)) < mm_fp u (n (Fin a))"
    using assms(3) by (simp_all add: result_fp_round_ok)
  have okb: "fmul (dbl 2) (mm_fp u (n t)) < mm_fp u (n (Fin b))"
    using ok(2) ab by (rule jsnum_less_le_trans)
  have vb: "ok3 (result_fp Round u (Fin b) s w h t L)"
    using ok(1) okb by (simp add: result_fp_round_ok)
  obtain r where r: "mm_fp u (n t) = Fin r" "0 < r"
    using valid_dims [OF T ok] by blast
  have "wPerM (result_fp Round u (Fin a) s w h t L) \<le> wPerM (result_fp Round u (Fin b) s w h t L)"
    unfolding result_fp_round_weight [OF assms(3)] result_fp_round_weight [OF vb] r(1) c(2)
    by (rule round_formula_mono [OF c(1) r(2) ab])
  then show ?thesis using vb by simp
qed

lemma result_fp_square_mono:
  assumes "is_double t" "is_double (Fin a)" "a \<le> b" "ok3 (result_fp Square u od (Fin a) w h t L)"
  shows "ok3 (result_fp Square u od (Fin b) w h t L)
       \<and> wPerM (result_fp Square u od (Fin a) w h t L) \<le> wPerM (result_fp Square u od (Fin b) w h t L)"
proof -
  obtain k where k: "0 < k" "dbl 7.85 = Fin k" using lit_785 by blast
  have d: "(0::real) < 1000" by simp
  have T: "is_double (mm_fp u (n t))" using assms(1) by (rule mm_fp_double)
  have A: "is_double (mm_fp u (n (Fin a)))" using assms(2) by (rule mm_fp_double)
  have ab: "mm_fp u (n (Fin a)) \<le> mm_fp u (n (Fin b))" using assms(3) by (rule mm_fp_mono)
  have ok: "Fin 0 < mm_fp u (n t)" "fmul (dbl 2) (mm_fp u (n t)) < mm_fp u (n (Fin a))"
    using assms(4) by (simp_all add: result_fp_square_ok)
  have okb: "fmul (dbl 2) (mm_fp u (n t)) < mm_fp u (n (Fin b))"
    using ok(2) ab by (rule jsnum_less_le_trans)
  have vb: "ok3 (result_fp Square u od (Fin b) w h t L)"
    using ok(1) okb by (simp add: result_fp_square_ok)
  obtain r where r: "mm_fp u (n t) = Fin r" "0 < r" "is_double (Fin r)"
      "Fin (2 * r) < mm_fp u (n (Fin a))"
    using valid_dims [OF T ok] by blast
  have "wPerM (result_fp Square u od (Fin a) w h t L) \<le> wPerM (result_fp Square u od (Fin b) w h t L)"
    unfolding result_fp_square_weight [OF assms(4)] result_fp_square_weight [OF vb] r(1) k(2)
      dbl_4 dbl_1000
    by (rule square_formula_mono [OF k(1) d r(2,3) A less_twice [OF r(2,4)] ab])
  then show ?thesis using vb by simp
qed

lemma result_fp_rectangle_mono_width:
  assumes "is_double t" "a \<le> b" "ok3 (result_fp Rectangle u od s (Fin a) h t L)"
  shows "ok3 (result_fp Rectangle u od s (Fin b) h t L)
       \<and> wPerM (result_fp Rectangle u od s (Fin a) h t L)
           \<le> wPerM (result_fp Rectangle u od s (Fin b) h t L)"
proof -
  obtain k where k: "0 < k" "dbl 7.85 = Fin k" using lit_785 by blast
  have d: "(0::real) < 1000" by simp
  have T: "is_double (mm_fp u (n t))" using assms(1) by (rule mm_fp_double)
  have ab: "mm_fp u (n (Fin a)) \<le> mm_fp u (n (Fin b))" using assms(2) by (rule mm_fp_mono)
  have ok: "Fin 0 < mm_fp u (n t)" "fmul (dbl 2) (mm_fp u (n t)) < mm_fp u (n (Fin a))"
      "fmul (dbl 2) (mm_fp u (n t)) < mm_fp u (n h)"
    using assms(3) by (simp_all add: result_fp_rectangle_ok)
  have okb: "fmul (dbl 2) (mm_fp u (n t)) < mm_fp u (n (Fin b))"
    using ok(2) ab by (rule jsnum_less_le_trans)
  have vb: "ok3 (result_fp Rectangle u od s (Fin b) h t L)"
    using ok(1,3) okb by (simp add: result_fp_rectangle_ok)
  obtain r where r: "mm_fp u (n t) = Fin r" "0 < r"
      "Fin (2 * r) < mm_fp u (n (Fin a))" "fmul (dbl 2) (mm_fp u (n t)) = Fin (2 * r)"
    using valid_dims [OF T ok(1,2)] by blast
  have h: "Fin (2 * r) < mm_fp u (n h)" using ok(3) unfolding r(4) .
  have sum: "fadd (mm_fp u (n (Fin a))) (mm_fp u (n h)) \<le> fadd (mm_fp u (n (Fin b))) (mm_fp u (n h))"
    by (intro fadd_mono_left nonneg_of_gt [OF r(2) h] nonneg_of_gt [OF r(2,3)] ab)
  have "wPerM (result_fp Rectangle u od s (Fin a) h t L)
      \<le> wPerM (result_fp Rectangle u od s (Fin b) h t L)"
    unfolding result_fp_rectangle_weight [OF assms(3)] result_fp_rectangle_weight [OF vb] r(4) k(2)
      dbl_1000
    by (rule rectangle_formula_mono [OF k(1) d r(2) sum])
  then show ?thesis using vb by simp
qed

lemma result_fp_rectangle_mono_height:
  assumes "is_double t" "a \<le> b" "ok3 (result_fp Rectangle u od s w (Fin a) t L)"
  shows "ok3 (result_fp Rectangle u od s w (Fin b) t L)
       \<and> wPerM (result_fp Rectangle u od s w (Fin a) t L)
           \<le> wPerM (result_fp Rectangle u od s w (Fin b) t L)"
proof -
  obtain k where k: "0 < k" "dbl 7.85 = Fin k" using lit_785 by blast
  have d: "(0::real) < 1000" by simp
  have T: "is_double (mm_fp u (n t))" using assms(1) by (rule mm_fp_double)
  have ab: "mm_fp u (n (Fin a)) \<le> mm_fp u (n (Fin b))" using assms(2) by (rule mm_fp_mono)
  have ok: "Fin 0 < mm_fp u (n t)" "fmul (dbl 2) (mm_fp u (n t)) < mm_fp u (n w)"
      "fmul (dbl 2) (mm_fp u (n t)) < mm_fp u (n (Fin a))"
    using assms(3) by (simp_all add: result_fp_rectangle_ok)
  have okb: "fmul (dbl 2) (mm_fp u (n t)) < mm_fp u (n (Fin b))"
    using ok(3) ab by (rule jsnum_less_le_trans)
  have vb: "ok3 (result_fp Rectangle u od s w (Fin b) t L)"
    using ok(1,2) okb by (simp add: result_fp_rectangle_ok)
  obtain r where r: "mm_fp u (n t) = Fin r" "0 < r"
      "Fin (2 * r) < mm_fp u (n w)" "fmul (dbl 2) (mm_fp u (n t)) = Fin (2 * r)"
    using valid_dims [OF T ok(1,2)] by blast
  have h: "Fin (2 * r) < mm_fp u (n (Fin a))" using ok(3) unfolding r(4) .
  have sum: "fadd (mm_fp u (n w)) (mm_fp u (n (Fin a))) \<le> fadd (mm_fp u (n w)) (mm_fp u (n (Fin b)))"
    by (intro fadd_mono_right nonneg_of_gt [OF r(2) h] nonneg_of_gt [OF r(2,3)] ab)
  have "wPerM (result_fp Rectangle u od s w (Fin a) t L)
      \<le> wPerM (result_fp Rectangle u od s w (Fin b) t L)"
    unfolding result_fp_rectangle_weight [OF assms(3)] result_fp_rectangle_weight [OF vb] r(4) k(2)
      dbl_1000
    by (rule rectangle_formula_mono [OF k(1) d r(2) sum])
  then show ?thesis using vb by simp
qed

subsection \<open>The rounded first version\<close>

lemma round_v1_fp_valid:
  assumes "ok (round_v1_fp a b L u)"
  shows "\<exists>p t. a = Fin p \<and> b = Fin t \<and> 0 < t \<and> t < p"
  using assms by (cases a; cases b) (auto simp: round_v1_fp_def Let_def split: if_splits)

lemma round_v1_fp_accept:
  assumes "0 < t" "t < p"
  shows "ok (round_v1_fp (Fin p) (Fin t) L u)"
    and "wPerUnit (round_v1_fp (Fin p) (Fin t) L u)
       = fmul (fmul (if u = Ft then dbl 10.69 else dbl 24.66) (fsub (Fin p) (Fin t))) (Fin t)"
  using assms by (simp_all add: round_v1_fp_def Let_def)

lemma lit_v1: "\<exists>c>0. (if u = Ft then dbl 10.69 else dbl 24.66) = Fin c"
  using lit_1069 lit_2466 by (cases "u = Ft") simp_all

lemma round_v1_fp_nonneg:
  assumes "ok (round_v1_fp a b L u)"
  shows "Fin 0 \<le> wPerUnit (round_v1_fp a b L u)"
proof -
  obtain p t where v: "a = Fin p" "b = Fin t" "0 < t" "t < p"
    using round_v1_fp_valid [OF assms] by blast
  obtain c where c: "0 < c" "(if u = Ft then dbl 10.69 else dbl 24.66) = Fin c"
    using lit_v1 by blast
  have "Fin t < Fin p" using v(4) by simp
  then show ?thesis
    unfolding v(1,2) round_v1_fp_accept(2) [OF v(3,4)] c(2)
    by (rule round_formula_nonneg [OF c(1) v(3)])
qed

lemma round_v1_fp_mono:
  assumes "p \<le> q" "ok (round_v1_fp (Fin p) b L u)"
  shows "ok (round_v1_fp (Fin q) b L u)
       \<and> wPerUnit (round_v1_fp (Fin p) b L u) \<le> wPerUnit (round_v1_fp (Fin q) b L u)"
proof -
  obtain t where v: "b = Fin t" "0 < t" "t < p"
    using round_v1_fp_valid [OF assms(2)] by blast
  have q: "t < q" using v(3) assms(1) by simp
  obtain c where c: "0 < c" "(if u = Ft then dbl 10.69 else dbl 24.66) = Fin c"
    using lit_v1 by blast
  have pq: "Fin p \<le> Fin q" using assms(1) by simp
  have "wPerUnit (round_v1_fp (Fin p) b L u) \<le> wPerUnit (round_v1_fp (Fin q) b L u)"
    unfolding v(1) round_v1_fp_accept(2) [OF v(2,3)] round_v1_fp_accept(2) [OF v(2) q] c(2)
    by (rule round_formula_mono [OF c(1) v(2) pq])
  then show ?thesis using round_v1_fp_accept(1) [OF v(2) q] v(1) by simp
qed

lemma square_v1_fp_valid:
  assumes "ok (square_v1_fp a b L)"
  shows "\<exists>p t. a = Fin p \<and> b = Fin t \<and> 0 < t \<and> t < p"
  using assms by (cases a; cases b) (auto simp: square_v1_fp_def Let_def split: if_splits)

lemma square_v1_fp_accept:
  assumes "0 < t" "t < p"
  shows "ok (square_v1_fp (Fin p) (Fin t) L)"
    and "wPerUnit (square_v1_fp (Fin p) (Fin t) L)
       = fdiv (fmul (fmul (fmul (dbl 4) (Fin t)) (fsub (Fin p) (Fin t))) (dbl 7.85)) (dbl 1000)"
  using assms by (simp_all add: square_v1_fp_def Let_def)

lemma square_v1_fp_nonneg:
  assumes "is_double a" "is_double b" "ok (square_v1_fp a b L)"
  shows "Fin 0 \<le> wPerUnit (square_v1_fp a b L)"
proof -
  obtain p t where v: "a = Fin p" "b = Fin t" "0 < t" "t < p"
    using square_v1_fp_valid [OF assms(3)] by blast
  obtain k where k: "0 < k" "dbl 7.85 = Fin k" using lit_785 by blast
  have d: "(0::real) < 1000" by simp
  have dp: "is_double (Fin p)" and dt: "is_double (Fin t)" using assms(1,2) v(1,2) by simp_all
  have "Fin t < Fin p" using v(4) by simp
  then show ?thesis
    unfolding v(1,2) square_v1_fp_accept(2) [OF v(3,4)] k(2) dbl_4 dbl_1000
    by (rule square_formula_nonneg [OF k(1) d v(3) dt dp])
qed

lemma square_v1_fp_mono:
  assumes "is_double (Fin p)" "is_double b" "p \<le> q" "ok (square_v1_fp (Fin p) b L)"
  shows "ok (square_v1_fp (Fin q) b L)
       \<and> wPerUnit (square_v1_fp (Fin p) b L) \<le> wPerUnit (square_v1_fp (Fin q) b L)"
proof -
  obtain t where v: "b = Fin t" "0 < t" "t < p"
    using square_v1_fp_valid [OF assms(4)] by blast
  have q: "t < q" using v(3) assms(3) by simp
  obtain k where k: "0 < k" "dbl 7.85 = Fin k" using lit_785 by blast
  have d: "(0::real) < 1000" by simp
  have dt: "is_double (Fin t)" using assms(2) v(1) by simp
  have tp: "Fin t < Fin p" using v(3) by simp
  have pq: "Fin p \<le> Fin q" using assms(3) by simp
  have "wPerUnit (square_v1_fp (Fin p) b L) \<le> wPerUnit (square_v1_fp (Fin q) b L)"
    unfolding v(1) square_v1_fp_accept(2) [OF v(2,3)] square_v1_fp_accept(2) [OF v(2) q] k(2)
      dbl_4 dbl_1000
    by (rule square_formula_mono [OF k(1) d v(2) dt assms(1) tp pq])
  then show ?thesis using square_v1_fp_accept(1) [OF v(2) q] v(1) by simp
qed

subsection \<open>The rounded second version\<close>

lemma fmul_nn_left:
  assumes "0 < c" "v = NaN \<or> Fin 0 \<le> v"
  shows "fmul (Fin c) v = NaN \<or> Fin 0 \<le> fmul (Fin c) v"
  using assms fmul_nonneg_left [of c v] by (auto simp: fmul_def)

lemma fmul_nn_right:
  assumes "0 < c" "v = NaN \<or> Fin 0 \<le> v"
  shows "fmul v (Fin c) = NaN \<or> Fin 0 \<le> fmul v (Fin c)"
  using assms fmul_nonneg_right [of c v] by (auto simp: fmul_def)

lemma fsub_nn:
  assumes "Fin 0 \<le> Y" "Y \<le> X"
  shows "fsub X Y = NaN \<or> Fin 0 \<le> fsub X Y"
proof (cases X)
  case (Fin x)
  then obtain y where y: "Y = Fin y" "y \<le> x" using assms by (cases Y) simp_all
  then have "Fin 0 \<le> dbl (x - y)" by (intro dbl_nonneg) simp
  then show ?thesis by (simp add: fsub_def Fin y)
next
  case PInf
  then show ?thesis using assms by (cases Y) (simp_all add: fsub_def)
qed (use assms in \<open>cases Y; simp\<close>)+

lemma squares_difference_nn:
  assumes "is_double (Fin p)" "0 < t" "is_double (Fin t)"
    and "Fin 0 < fsub (Fin p) (fmul (dbl 2) (Fin t))"
  shows "\<exists>i. fsub (Fin p) (fmul (dbl 2) (Fin t)) = Fin i
     \<and> (fsub (fmul (Fin p) (Fin p)) (fmul (Fin i) (Fin i)) = NaN
        \<or> Fin 0 \<le> fsub (fmul (Fin p) (Fin p)) (fmul (Fin i) (Fin i)))"
proof -
  have two: "fmul (dbl 2) (Fin t) = Fin (2 * t)"
    using fmul_2 [OF assms(3,2)] assms(4) by (auto simp: fsub_def)
  have "dbl (p - 2 * t) \<le> dbl p" using assms(2) by (intro dbl_mono) simp
  moreover have "dbl p = Fin p" using assms(1) by (simp add: is_double_def)
  ultimately have le: "fsub (Fin p) (fmul (dbl 2) (Fin t)) \<le> Fin p"
    unfolding two by (simp add: fsub_def)
  then obtain i where i: "fsub (Fin p) (fmul (dbl 2) (Fin t)) = Fin i" "0 < i" "i \<le> p"
    using assms(4) by (cases "fsub (Fin p) (fmul (dbl 2) (Fin t))") simp_all
  have "i * i \<le> p * p" using i(2,3) by (intro mult_mono) simp_all
  then have "dbl (i * i) \<le> dbl (p * p)" by (rule dbl_mono)
  moreover have "Fin 0 \<le> dbl (i * i)" by (intro dbl_nonneg) simp
  ultimately have "fsub (fmul (Fin p) (Fin p)) (fmul (Fin i) (Fin i)) = NaN
        \<or> Fin 0 \<le> fsub (fmul (Fin p) (Fin p)) (fmul (Fin i) (Fin i))"
    by (intro fsub_nn) (simp_all add: fmul_def)
  then show ?thesis using i(1) by blast
qed

lemma areaSquareTubeMm2_fp_nn:
  assumes "is_double (Fin p)" "0 < t" "is_double (Fin t)"
  shows "areaSquareTubeMm2_fp (Fin p) (Fin t) = NaN
       \<or> Fin 0 \<le> areaSquareTubeMm2_fp (Fin p) (Fin t)"
proof (cases "Fin 0 < fsub (Fin p) (fmul (dbl 2) (Fin t))")
  case True
  then show ?thesis
    using squares_difference_nn [OF assms True]
    by (auto simp: areaSquareTubeMm2_fp_def Let_def)
next
  case False
  then show ?thesis by (simp add: areaSquareTubeMm2_fp_def Let_def)
qed

lemma areaRoundMm2_fp_nn:
  assumes "is_double (Fin p)" "0 < t" "is_double (Fin t)"
  shows "areaRoundMm2_fp (Fin p) (Fin t) = NaN \<or> Fin 0 \<le> areaRoundMm2_fp (Fin p) (Fin t)"
proof (cases "Fin 0 < fsub (Fin p) (fmul (dbl 2) (Fin t))")
  case True
  obtain q where q: "0 < q" "fdiv Math_PI_fp (dbl 4) = Fin q" using lit_quarter_pi by blast
  obtain i where i: "fsub (Fin p) (fmul (dbl 2) (Fin t)) = Fin i"
      "fsub (fmul (Fin p) (Fin p)) (fmul (Fin i) (Fin i)) = NaN
        \<or> Fin 0 \<le> fsub (fmul (Fin p) (Fin p)) (fmul (Fin i) (Fin i))"
    using squares_difference_nn [OF assms True] by blast
  have "areaRoundMm2_fp (Fin p) (Fin t)
      = fmul (Fin q) (fsub (fmul (Fin p) (Fin p)) (fmul (Fin i) (Fin i)))"
    using True unfolding areaRoundMm2_fp_def Let_def q(2) i(1) by simp
  then show ?thesis using fmul_nn_left [OF q(1) i(2)] by simp
next
  case False
  then show ?thesis by (simp add: areaRoundMm2_fp_def Let_def)
qed

lemma kgPerUnitFromArea_fp_nn:
  assumes "v = NaN \<or> Fin 0 \<le> v"
  shows "kgPerUnitFromArea_fp v u = NaN \<or> Fin 0 \<le> kgPerUnitFromArea_fp v u"
proof -
  obtain l where l: "0 < l" "(if u = Ft then FT_TO_MM_fp else M_TO_MM_fp) = Fin l"
    using lit_FT_TO_MM lit_M_TO_MM by (cases "u = Ft") auto
  obtain d where d: "0 < d" "STEEL_DENSITY_KG_PER_MM3_fp = Fin d" using lit_STEEL by blast
  show ?thesis
    unfolding kgPerUnitFromArea_fp_def Let_def l(2) d(2)
    by (intro fmul_nn_right l(1) d(1) assms)
qed

lemma v2_fp_valid:
  assumes "isFinite (if isFinite (clampNonNegative (num a))
                     then inchesToMm_fp (clampNonNegative (num a)) else NaN)"
    and "isFinite (clampNonNegative (num b))" "Fin 0 < clampNonNegative (num b)"
  shows "\<exists>p t. (if isFinite (clampNonNegative (num a))
                 then inchesToMm_fp (clampNonNegative (num a)) else NaN) = Fin p
            \<and> clampNonNegative (num b) = Fin t \<and> b = Fin t \<and> 0 < t \<and> is_double (Fin p)"
proof -
  let ?od = "if isFinite (clampNonNegative (num a))
             then inchesToMm_fp (clampNonNegative (num a)) else NaN"
  obtain p where p: "?od = Fin p" using assms(1) by (auto simp: isFinite_iff)
  have "is_double ?od" by (simp add: inchesToMm_fp_def)
  then have "is_double (Fin p)" by (simp only: p)
  moreover obtain t where "clampNonNegative (num b) = Fin t" "b = Fin t" "0 < t"
    using assms(2,3) by (cases b) (auto split: if_splits)
  ultimately show ?thesis using p by blast
qed

lemma round_v2_fp_nn:
  assumes "is_double b" "ok (round_v2_fp a b L u)"
  shows "wPerUnit (round_v2_fp a b L u) = NaN \<or> Fin 0 \<le> wPerUnit (round_v2_fp a b L u)"
proof -
  let ?od = "if isFinite (clampNonNegative (num a))
             then inchesToMm_fp (clampNonNegative (num a)) else NaN"
  have v: "isFinite ?od" "isFinite (clampNonNegative (num b))" "Fin 0 < clampNonNegative (num b)"
    and w: "wPerUnit (round_v2_fp a b L u)
        = kgPerUnitFromArea_fp (areaRoundMm2_fp ?od (clampNonNegative (num b))) u"
    using assms(2) by (simp_all add: round_v2_fp_def Let_def split: if_splits)
  obtain p t where pt: "?od = Fin p" "clampNonNegative (num b) = Fin t" "b = Fin t" "0 < t"
      "is_double (Fin p)"
    using v2_fp_valid [OF v] by blast
  have dt: "is_double (Fin t)" using assms(1) pt(3) by simp
  show ?thesis
    unfolding w pt(1,2)
    by (intro kgPerUnitFromArea_fp_nn areaRoundMm2_fp_nn pt(4,5) dt)
qed

lemma square_v2_fp_nn:
  assumes "is_double b" "ok (square_v2_fp a b L u)"
  shows "wPerUnit (square_v2_fp a b L u) = NaN \<or> Fin 0 \<le> wPerUnit (square_v2_fp a b L u)"
proof -
  let ?od = "if isFinite (clampNonNegative (num a))
             then inchesToMm_fp (clampNonNegative (num a)) else NaN"
  have v: "isFinite ?od" "isFinite (clampNonNegative (num b))" "Fin 0 < clampNonNegative (num b)"
    and w: "wPerUnit (square_v2_fp a b L u)
        = kgPerUnitFromArea_fp (areaSquareTubeMm2_fp ?od (clampNonNegative (num b))) u"
    using assms(2) by (simp_all add: square_v2_fp_def Let_def split: if_splits)
  obtain p t where pt: "?od = Fin p" "clampNonNegative (num b) = Fin t" "b = Fin t" "0 < t"
      "is_double (Fin p)"
    using v2_fp_valid [OF v] by blast
  have dt: "is_double (Fin t)" using assms(1) pt(3) by simp
  show ?thesis
    unfolding w pt(1,2)
    by (intro kgPerUnitFromArea_fp_nn areaSquareTubeMm2_fp_nn pt(4,5) dt)
qed

subsection \<open>Evaluating a rounding\<close>

lemma fadd_Fin: "fadd (Fin a) (Fin b) = dbl (a + b)"
  by (simp add: fadd_def)

lemma fsub_Fin: "fsub (Fin a) (Fin b) = dbl (a - b)"
  by (simp add: fsub_def)

lemma fmul_Fin: "fmul (Fin a) (Fin b) = dbl (a * b)"
  by (simp add: fmul_def)

lemma fdiv_Fin: "b \<noteq> 0 \<Longrightarrow> fdiv (Fin a) (Fin b) = dbl (a / b)"
  by (simp add: fdiv_def)

lemma dbl_evalI:
  assumes "2 powi k \<le> x" "x < 2 powi (k + 1)" "- 1074 \<le> k" "k < 1023"
    and "y = of_int m * 2 powi (max (k - 52) (- 1074))"
    and "\<bar>x - y\<bar> < 2 powi (max (k - 52) (- 1074)) / 2"
  shows "dbl x = Fin y"
proof -
  have pos: "0 < x"
  proof -
    have "(0::real) < 2 powi k" by (rule zero_less_power_int) simp
    then show ?thesis using assms(1) by linarith
  qed
  have n: "nearest x = y"
    unfolding assms(5) using assms(1,2,6) pos unfolding assms(5)
    by (intro nearest_eqI) simp_all
  have "x \<le> 2 powi (k + 1)" using assms(2) by simp
  then have "nearest x \<le> 2 powi (k + 1)"
    by (rule nearest_le_pow2) (use assms(3) in simp)
  moreover have "(2::real) powi (k + 1) < 2 powi 1024"
    using assms(4) by (intro power_int_strict_increasing) simp_all
  moreover have "0 \<le> nearest x" using pos by (intro nearest_nonneg) simp
  ultimately have "\<not> 2 powi 1024 \<le> \<bar>nearest x\<bar>" by linarith
  then show ?thesis by (simp only: dbl_def Let_def n if_False)
qed

subsection \<open>Bounds by powers of two\<close>

lemma between_iff: "between a b v \<longleftrightarrow> (\<exists>y. v = Fin y \<and> 2 powi a \<le> y \<and> y \<le> 2 powi b)"
  by (cases v) simp_all

lemma between_pos:
  assumes "between a b v"
  shows "\<exists>y>0. v = Fin y"
proof -
  obtain y where y: "v = Fin y" "2 powi a \<le> y" using assms by (auto simp: between_iff)
  have "(0::real) < 2 powi a" by (rule zero_less_power_int) simp
  then have "0 < y" using y(2) by linarith
  then show ?thesis using y(1) by blast
qed

lemma between_dbl:
  assumes "2 powi a \<le> x" "x \<le> 2 powi b" "- 1074 \<le> a" "b < 1024"
  shows "between a b (dbl x)"
  using dbl_between [OF assms] by (auto simp: between_iff)

lemma between_weaken:
  assumes "between a b v" "a' \<le> a" "b \<le> b'"
  shows "between a' b' v"
proof -
  obtain y where y: "v = Fin y" "2 powi a \<le> y" "y \<le> 2 powi b"
    using assms(1) by (auto simp: between_iff)
  have "(2::real) powi a' \<le> 2 powi a" "(2::real) powi b \<le> 2 powi b'"
    using assms(2,3) by (intro power_int_increasing; simp)+
  then have "2 powi a' \<le> y" "y \<le> 2 powi b'" using y(2,3) by linarith+
  then show ?thesis by (simp add: y(1))
qed

lemma product_bounds:
  fixes x y :: real
  assumes "2 powi a \<le> x" "x \<le> 2 powi b" "2 powi c \<le> y" "y \<le> 2 powi d"
  shows "2 powi (a + c) \<le> x * y" "x * y \<le> 2 powi (b + d)"
proof -
  have pa: "(0::real) < 2 powi a" and pc: "(0::real) < 2 powi c"
    by (rule zero_less_power_int; simp)+
  have x: "0 \<le> x" and y: "0 \<le> y" using assms(1,3) pa pc by linarith+
  have "2 powi a * 2 powi c \<le> x * y"
    by (intro mult_mono assms x) simp_all
  then show "2 powi (a + c) \<le> x * y" by (simp add: power_int_add)
  have "x * y \<le> 2 powi b * 2 powi d"
    by (intro mult_mono assms x y) simp_all
  then show "x * y \<le> 2 powi (b + d)" by (simp add: power_int_add)
qed

lemma between_fmul:
  assumes "between a b u" "between c d v" "- 1074 \<le> a + c" "b + d < 1024"
  shows "between (a + c) (b + d) (fmul u v)"
proof -
  obtain x where x: "u = Fin x" "2 powi a \<le> x" "x \<le> 2 powi b"
    using assms(1) by (auto simp: between_iff)
  obtain y where y: "v = Fin y" "2 powi c \<le> y" "y \<le> 2 powi d"
    using assms(2) by (auto simp: between_iff)
  show ?thesis
    unfolding x(1) y(1) fmul_Fin
    by (intro between_dbl product_bounds [OF x(2,3) y(2,3)] assms(3,4))
qed

lemma fmul_overflow:
  assumes "between a b u" "between c d v" "1024 \<le> a + c"
  shows "fmul u v = PInf"
proof -
  obtain x where x: "u = Fin x" "2 powi a \<le> x" "x \<le> 2 powi b"
    using assms(1) by (auto simp: between_iff)
  obtain y where y: "v = Fin y" "2 powi c \<le> y" "y \<le> 2 powi d"
    using assms(2) by (auto simp: between_iff)
  have "(2::real) powi 1024 \<le> 2 powi (a + c)"
    using assms(3) by (intro power_int_increasing) simp_all
  then have "2 powi 1024 \<le> x * y"
    using product_bounds(1) [OF x(2,3) y(2,3)] by linarith
  then show ?thesis unfolding x(1) y(1) fmul_Fin by (rule dbl_overflow)
qed

lemma fmul_underflow:
  assumes "between a b u" "between c d v" "b + d < - 1075"
  shows "fmul u v = Fin 0"
proof -
  obtain x where x: "u = Fin x" "2 powi a \<le> x" "x \<le> 2 powi b"
    using assms(1) by (auto simp: between_iff)
  obtain y where y: "v = Fin y" "2 powi c \<le> y" "y \<le> 2 powi d"
    using assms(2) by (auto simp: between_iff)
  have "(2::real) powi (b + d) < 2 powi (- 1075)"
    using assms(3) by (intro power_int_strict_increasing) simp_all
  then have "x * y < 2 powi (- 1075)"
    using product_bounds(2) [OF x(2,3) y(2,3)] by linarith
  moreover have "(0::real) < 2 powi (a + c)" by (rule zero_less_power_int) simp
  then have "0 \<le> x * y" using product_bounds(1) [OF x(2,3) y(2,3)] by linarith
  ultimately show ?thesis unfolding x(1) y(1) fmul_Fin by (intro dbl_underflow)
qed

lemma between_fdiv:
  assumes "between a b u" "between c d v" "- 1074 \<le> a - d" "b - c < 1024"
  shows "between (a - d) (b - c) (fdiv u v)"
proof -
  obtain x where x: "u = Fin x" "2 powi a \<le> x" "x \<le> 2 powi b"
    using assms(1) by (auto simp: between_iff)
  obtain y where y: "v = Fin y" "2 powi c \<le> y" "y \<le> 2 powi d"
    using assms(2) by (auto simp: between_iff)
  have pc: "(0::real) < 2 powi c" and pd: "(0::real) < 2 powi d"
    by (rule zero_less_power_int; simp)+
  have y0: "0 < y" using y(2) pc by linarith
  have "inverse (2 powi d) \<le> inverse y" using y(3) y0 by (rule le_imp_inverse_le)
  moreover have "inverse y \<le> inverse (2 powi c)" using y(2) pc by (rule le_imp_inverse_le)
  ultimately have i: "2 powi (- d) \<le> inverse y" "inverse y \<le> 2 powi (- c)"
    by (simp_all add: power_int_minus)
  have "2 powi (a + (- d)) \<le> x * inverse y" "x * inverse y \<le> 2 powi (b + (- c))"
    by (rule product_bounds [OF x(2,3) i])+
  then have "2 powi (a - d) \<le> x / y" "x / y \<le> 2 powi (b - c)"
    by (simp_all add: divide_inverse)
  then show ?thesis
    unfolding x(1) y(1) using y0 by (simp add: fdiv_Fin between_dbl assms(3,4))
qed

text \<open>The difference \<open>OD - T\<close> when \<open>2T < OD\<close>.\<close>

lemma between_fsub:
  assumes "between a b (Fin t)" "Fin (2 * t) < OD" "between c d OD" "- 1074 \<le> a" "d < 1024"
  shows "between a d (fsub OD (Fin t))"
proof -
  obtain x where x: "OD = Fin x" "2 powi c \<le> x" "x \<le> 2 powi d"
    using assms(3) by (auto simp: between_iff)
  have t: "2 powi a \<le> t" using assms(1) by simp
  have pa: "(0::real) < 2 powi a" by (rule zero_less_power_int) simp
  have lt: "2 * t < x" using assms(2) x(1) by simp
  then have lo: "2 powi a \<le> x - t" using t by linarith
  have hi: "x - t \<le> 2 powi d" using x(3) t pa by linarith
  show ?thesis
    unfolding x(1) fsub_Fin by (intro between_dbl lo hi assms(4,5))
qed

lemma between_fadd:
  assumes "between a b u" "between c d v" "- 1074 \<le> a" "max b d + 1 < 1024"
  shows "between a (max b d + 1) (fadd u v)"
proof -
  obtain x where x: "u = Fin x" "2 powi a \<le> x" "x \<le> 2 powi b"
    using assms(1) by (auto simp: between_iff)
  obtain y where y: "v = Fin y" "2 powi c \<le> y" "y \<le> 2 powi d"
    using assms(2) by (auto simp: between_iff)
  have pc: "(0::real) < 2 powi c" by (rule zero_less_power_int) simp
  have lo: "2 powi a \<le> x + y" using x(2) y(2) pc by linarith
  have "(2::real) powi b \<le> 2 powi (max b d)" "(2::real) powi d \<le> 2 powi (max b d)"
    by (intro power_int_increasing; simp)+
  then have "x + y \<le> 2 * 2 powi (max b d)" using x(3) y(3) by linarith
  also have "\<dots> = 2 powi (max b d + 1)"
    using power_int_add [of "2::real" "max b d" 1] by simp
  finally have hi: "x + y \<le> 2 powi (max b d + 1)" .
  show ?thesis
    unfolding x(1) y(1) fadd_Fin by (intro between_dbl lo hi assms(3,4))
qed

lemma between_less:
  assumes "between a b u" "between c d v" "b < c"
  shows "u < v"
proof -
  obtain x where x: "u = Fin x" "x \<le> 2 powi b" using assms(1) by (auto simp: between_iff)
  obtain y where y: "v = Fin y" "2 powi c \<le> y" using assms(2) by (auto simp: between_iff)
  have "(2::real) powi b < 2 powi c" using assms(3) by (intro power_int_strict_increasing) simp_all
  then show ?thesis using x y by simp
qed

lemma between_gt0: "between a b v \<Longrightarrow> Fin 0 < v"
  using between_pos [of a b v] by auto

lemma between_parse:
  assumes "between a b v"
  shows "n v = v" "num v = v" "clampNonNegative v = v" "isFinite v"
  using between_pos [OF assms] by auto

lemma between_fsub_far:
  assumes "between a b T" "between c d OD" "b < c" "- 1074 \<le> c - 1" "d < 1024"
  shows "between (c - 1) d (fsub OD T)"
proof -
  obtain x where x: "OD = Fin x" "2 powi c \<le> x" "x \<le> 2 powi d"
    using assms(2) by (auto simp: between_iff)
  obtain t where t: "T = Fin t" "2 powi a \<le> t" "t \<le> 2 powi b"
    using assms(1) by (auto simp: between_iff)
  have pa: "(0::real) < 2 powi a" by (rule zero_less_power_int) simp
  have "(2::real) powi b \<le> 2 powi (c - 1)"
    using assms(3) by (intro power_int_increasing) simp_all
  moreover have "(2::real) powi c = 2 * 2 powi (c - 1)"
    using power_int_add [of "2::real" "c - 1" 1] by simp
  ultimately have lo: "2 powi (c - 1) \<le> x - t" using x(2) t(3) by linarith
  have hi: "x - t \<le> 2 powi d" using x(3) t(2) pa by linarith
  show ?thesis
    unfolding x(1) t(1) fsub_Fin by (intro between_dbl lo hi assms(4,5))
qed

text \<open>Literals and inputs between powers of two.\<close>

lemma between_lits:
  "between 3 4 (dbl 10.69)" "between 4 5 (dbl 24.66)" "between 2 3 (dbl 7.85)"
  "between (- 6) (- 5) (dbl 0.02466)" "between 4 5 IN_TO_MM_fp" "between 1 1 (Fin 2)"
  "between 2 2 (Fin 4)" "between 9 10 (Fin 1000)" "between 8 9 FT_TO_MM_fp"
  "between 9 10 M_TO_MM_fp" "between (- 17) (- 16) STEEL_DENSITY_KG_PER_MM3_fp"
  unfolding IN_TO_MM_fp_def FT_TO_MM_fp_def M_TO_MM_fp_def STEEL_DENSITY_KG_PER_MM3_fp_def
  by (simp_all add: between_dbl)

lemma is_double_of_int:
  assumes "\<bar>m\<bar> \<le> 2 ^ 53"
  shows "is_double (Fin (of_int m))"
  using dbl_of_int [OF assms] by (simp add: is_double_def)

subsection \<open>Concrete inputs\<close>

lemma mm_fp_Mm: "mm_fp Mm v = v"
  by (simp add: mm_fp_def)

text \<open>
  The area of a square tube of 1000000015 mm and of 1000000016 mm with a wall of 1 mm in
  the second version, one operation after the other; the facts are named after the
  variables of the source.
\<close>

lemma area_at_1000000015:
  "areaSquareTubeMm2_fp (Fin 1000000015) (Fin 1) = Fin 4000000128"
proof -
  have two: "fmul (Fin 2) (Fin 1) = Fin 2"
    unfolding fmul_Fin by (rule dbl_evalI [where k = 1 and m = 4503599627370496]) simp_all
  have inner: "fsub (Fin 1000000015) (Fin 2) = Fin 1000000013"
    unfolding fsub_Fin by (rule dbl_evalI [where k = 29 and m = 8388608109051904]) simp_all
  have ss: "fmul (Fin 1000000015) (Fin 1000000015) = Fin 1000000030000000256"
    unfolding fmul_Fin by (rule dbl_evalI [where k = 59 and m = 7812500234375002]) simp_all
  have ii: "fmul (Fin 1000000013) (Fin 1000000013) = Fin 1000000026000000128"
    unfolding fmul_Fin by (rule dbl_evalI [where k = 59 and m = 7812500203125001]) simp_all
  have d: "fsub (Fin 1000000030000000256) (Fin 1000000026000000128) = Fin 4000000128"
    unfolding fsub_Fin by (rule dbl_evalI [where k = 31 and m = 8388608268435456]) simp_all
  show ?thesis
    unfolding areaSquareTubeMm2_fp_def Let_def dbl_2 two inner ss ii d by simp
qed

lemma area_at_1000000016:
  "areaSquareTubeMm2_fp (Fin 1000000016) (Fin 1) = Fin 4000000000"
proof -
  have two: "fmul (Fin 2) (Fin 1) = Fin 2"
    unfolding fmul_Fin by (rule dbl_evalI [where k = 1 and m = 4503599627370496]) simp_all
  have inner: "fsub (Fin 1000000016) (Fin 2) = Fin 1000000014"
    unfolding fsub_Fin by (rule dbl_evalI [where k = 29 and m = 8388608117440512]) simp_all
  have ss: "fmul (Fin 1000000016) (Fin 1000000016) = Fin 1000000032000000256"
    unfolding fmul_Fin by (rule dbl_evalI [where k = 59 and m = 7812500250000002]) simp_all
  have ii: "fmul (Fin 1000000014) (Fin 1000000014) = Fin 1000000028000000256"
    unfolding fmul_Fin by (rule dbl_evalI [where k = 59 and m = 7812500218750002]) simp_all
  have d: "fsub (Fin 1000000032000000256) (Fin 1000000028000000256) = Fin 4000000000"
    unfolding fsub_Fin by (rule dbl_evalI [where k = 31 and m = 8388608000000000]) simp_all
  show ?thesis
    unfolding areaSquareTubeMm2_fp_def Let_def dbl_2 two inner ss ii d by simp
qed

text \<open>
  The third version at 111.2 mm and at the next double, 111.20000000000002 mm, with a wall
  of 2 mm.
\<close>

lemma result_fp_at_111:
  "ok3 (result_fp Round Mm (dbl 111.2) (Fin 0) (Fin 0) (Fin 0) (Fin 2) (Fin 0))"
  "wPerM (result_fp Round Mm (dbl 111.2) (Fin 0) (Fin 0) (Fin 0) (Fin 2) (Fin 0)) = Fin (3031904333939111 / 2 ^ 49)"
  "dbl 111.2 = Fin (7825004352556237 / 2 ^ 46)"
proof -
  have od: "dbl 111.2 = Fin (7825004352556237 / 2 ^ 46)"
    by (rule dbl_evalI [where k = 6 and m = 7825004352556237]) simp_all
  have c: "dbl 0.02466 = Fin (1776940268975303 / 2 ^ 56)"
    by (rule dbl_evalI [where k = "- 6" and m = 7107761075901212]) simp_all
  have two: "fmul (Fin 2) (Fin 2) = Fin 4"
    unfolding fmul_Fin by (rule dbl_evalI [where k = 2 and m = 4503599627370496]) simp_all
  have x: "fsub (Fin (7825004352556237 / 2 ^ 46)) (Fin 2) = Fin (7684266864200909 / 2 ^ 46)"
    unfolding fsub_Fin by (rule dbl_evalI [where k = 6 and m = 7684266864200909]) simp_all
  have y: "fmul (Fin (1776940268975303 / 2 ^ 56)) (Fin (7684266864200909 / 2 ^ 46)) = Fin (3031904333939111 / 2 ^ 50)"
    unfolding fmul_Fin by (rule dbl_evalI [where k = 1 and m = 6063808667878222]) simp_all
  have w: "fmul (Fin (3031904333939111 / 2 ^ 50)) (Fin 2) = Fin (3031904333939111 / 2 ^ 49)"
    unfolding fmul_Fin by (rule dbl_evalI [where k = 2 and m = 6063808667878222]) simp_all
  show v: "ok3 (result_fp Round Mm (dbl 111.2) (Fin 0) (Fin 0) (Fin 0) (Fin 2) (Fin 0))"
    unfolding result_fp_round_ok mm_fp_Mm od n_simps dbl_2 two by simp
  show "wPerM (result_fp Round Mm (dbl 111.2) (Fin 0) (Fin 0) (Fin 0) (Fin 2) (Fin 0)) = Fin (3031904333939111 / 2 ^ 49)"
    by (subst result_fp_round_weight [OF v]) (simp only: mm_fp_Mm od n_simps c x y w)
  show "dbl 111.2 = Fin (7825004352556237 / 2 ^ 46)" by (rule od)
qed

lemma result_fp_above_111:
  "ok3 (result_fp Round Mm (dbl 111.20000000000002) (Fin 0) (Fin 0) (Fin 0) (Fin 2) (Fin 0))"
  "wPerM (result_fp Round Mm (dbl 111.20000000000002) (Fin 0) (Fin 0) (Fin 0) (Fin 2) (Fin 0)) = Fin (3031904333939111 / 2 ^ 49)"
  "dbl 111.20000000000002 = Fin (3912502176278119 / 2 ^ 45)"
proof -
  have od: "dbl 111.20000000000002 = Fin (3912502176278119 / 2 ^ 45)"
    by (rule dbl_evalI [where k = 6 and m = 7825004352556238]) simp_all
  have c: "dbl 0.02466 = Fin (1776940268975303 / 2 ^ 56)"
    by (rule dbl_evalI [where k = "- 6" and m = 7107761075901212]) simp_all
  have two: "fmul (Fin 2) (Fin 2) = Fin 4"
    unfolding fmul_Fin by (rule dbl_evalI [where k = 2 and m = 4503599627370496]) simp_all
  have x: "fsub (Fin (3912502176278119 / 2 ^ 45)) (Fin 2) = Fin (3842133432100455 / 2 ^ 45)"
    unfolding fsub_Fin by (rule dbl_evalI [where k = 6 and m = 7684266864200910]) simp_all
  have y: "fmul (Fin (1776940268975303 / 2 ^ 56)) (Fin (3842133432100455 / 2 ^ 45)) = Fin (3031904333939111 / 2 ^ 50)"
    unfolding fmul_Fin by (rule dbl_evalI [where k = 1 and m = 6063808667878222]) simp_all
  have w: "fmul (Fin (3031904333939111 / 2 ^ 50)) (Fin 2) = Fin (3031904333939111 / 2 ^ 49)"
    unfolding fmul_Fin by (rule dbl_evalI [where k = 2 and m = 6063808667878222]) simp_all
  show v: "ok3 (result_fp Round Mm (dbl 111.20000000000002) (Fin 0) (Fin 0) (Fin 0) (Fin 2) (Fin 0))"
    unfolding result_fp_round_ok mm_fp_Mm od n_simps dbl_2 two by simp
  show "wPerM (result_fp Round Mm (dbl 111.20000000000002) (Fin 0) (Fin 0) (Fin 0) (Fin 2) (Fin 0)) = Fin (3031904333939111 / 2 ^ 49)"
    by (subst result_fp_round_weight [OF v]) (simp only: mm_fp_Mm od n_simps c x y w)
  show "dbl 111.20000000000002 = Fin (3912502176278119 / 2 ^ 45)" by (rule od)
qed

text \<open>
  The square tube of the second version at 4 inch and at the next double above 4, with a
  wall of 1 mm, per metre.
\<close>

lemma kgPerUnitFromArea_fp_M:
  "kgPerUnitFromArea_fp a M = fmul (fmul a (dbl 1000)) (dbl (7.85 / 10 ^ 6))"
  by (simp add: kgPerUnitFromArea_fp_def Let_def M_TO_MM_fp_def STEEL_DENSITY_KG_PER_MM3_fp_def)

lemma square_v2_fp_accept:
  assumes "0 \<le> x" "inchesToMm_fp (Fin x) = Fin p" "0 < t" "fmul (dbl 2) (Fin t) < Fin p"
  shows "ok (square_v2_fp (Fin x) (Fin t) L u)"
    and "wPerUnit (square_v2_fp (Fin x) (Fin t) L u)
       = kgPerUnitFromArea_fp (areaSquareTubeMm2_fp (Fin p) (Fin t)) u"
  using assms by (simp_all add: square_v2_fp_def Let_def)

lemma round_v2_fp_accept:
  assumes "0 \<le> x" "inchesToMm_fp (Fin x) = Fin p" "0 < t" "fmul (dbl 2) (Fin t) < Fin p"
  shows "ok (round_v2_fp (Fin x) (Fin t) L u)"
    and "wPerUnit (round_v2_fp (Fin x) (Fin t) L u)
       = kgPerUnitFromArea_fp (areaRoundMm2_fp (Fin p) (Fin t)) u"
  using assms by (simp_all add: round_v2_fp_def Let_def)

lemma square_v2_fp_at_4:
  "ok (square_v2_fp (Fin 4) (Fin 1) (Fin 0) M)"
  "wPerUnit (square_v2_fp (Fin 4) (Fin 1) (Fin 0) M) = Fin (3556537661730767 / 2 ^ 50)"
proof -
  have c: "dbl 25.4 = Fin (3574732204225331 / 2 ^ 47)"
    by (rule dbl_evalI [where k = 4 and m = 7149464408450662]) simp_all
  have p: "fmul (Fin 4) (Fin (3574732204225331 / 2 ^ 47)) = Fin (3574732204225331 / 2 ^ 45)"
    unfolding fmul_Fin by (rule dbl_evalI [where k = 6 and m = 7149464408450662]) simp_all
  have two: "fmul (Fin 2) (Fin 1) = Fin 2"
    unfolding fmul_Fin by (rule dbl_evalI [where k = 1 and m = 4503599627370496]) simp_all
  have inner: "fsub (Fin (3574732204225331 / 2 ^ 45)) (Fin 2) = Fin (3504363460047667 / 2 ^ 45)"
    unfolding fsub_Fin by (rule dbl_evalI [where k = 6 and m = 7008726920095334]) simp_all
  have ss: "fmul (Fin (3574732204225331 / 2 ^ 45)) (Fin (3574732204225331 / 2 ^ 45)) = Fin (5674887374207713 / 2 ^ 39)"
    unfolding fmul_Fin by (rule dbl_evalI [where k = 13 and m = 5674887374207713]) simp_all
  have ii: "fmul (Fin (3504363460047667 / 2 ^ 45)) (Fin (3504363460047667 / 2 ^ 45)) = Fin (5453665634699181 / 2 ^ 39)"
    unfolding fmul_Fin by (rule dbl_evalI [where k = 13 and m = 5453665634699181]) simp_all
  have d: "fsub (Fin (5674887374207713 / 2 ^ 39)) (Fin (5453665634699181 / 2 ^ 39)) = Fin (55305434877133 / 2 ^ 37)"
    unfolding fsub_Fin by (rule dbl_evalI [where k = 8 and m = 7079095664273024]) simp_all
  have vol: "fmul (Fin (55305434877133 / 2 ^ 37)) (Fin 1000) = Fin (6913179359641625 / 2 ^ 34)"
    unfolding fmul_Fin by (rule dbl_evalI [where k = 18 and m = 6913179359641625]) simp_all
  have rho: "dbl (7.85 / 10 ^ 6) = Fin (4633822111315839 / 2 ^ 69)"
    by (rule dbl_evalI [where k = "- 17" and m = 4633822111315839]) simp_all
  have w: "fmul (Fin (6913179359641625 / 2 ^ 34)) (Fin (4633822111315839 / 2 ^ 69)) = Fin (3556537661730767 / 2 ^ 50)"
    unfolding fmul_Fin by (rule dbl_evalI [where k = 1 and m = 7113075323461534]) simp_all
  have x0: "(0::real) \<le> 4" and t0: "(0::real) < 1" by simp_all
  have mm: "inchesToMm_fp (Fin 4) = Fin (3574732204225331 / 2 ^ 45)"
    unfolding inchesToMm_fp_def IN_TO_MM_fp_def c by (rule p)
  have gt: "fmul (dbl 2) (Fin 1) < Fin (3574732204225331 / 2 ^ 45)"
    unfolding dbl_2 two by simp
  have area: "areaSquareTubeMm2_fp (Fin (3574732204225331 / 2 ^ 45)) (Fin 1) = Fin (55305434877133 / 2 ^ 37)"
    unfolding areaSquareTubeMm2_fp_def Let_def dbl_2 two inner ss ii d by simp
  have kg: "kgPerUnitFromArea_fp (Fin (55305434877133 / 2 ^ 37)) M = Fin (3556537661730767 / 2 ^ 50)"
    unfolding kgPerUnitFromArea_fp_M dbl_1000 vol rho w by (rule refl)
  have v: "ok (square_v2_fp (Fin 4) (Fin 1) (Fin 0) M)"
    by (rule square_v2_fp_accept(1) [OF x0 mm t0 gt])
  have wt: "wPerUnit (square_v2_fp (Fin 4) (Fin 1) (Fin 0) M) = Fin (3556537661730767 / 2 ^ 50)"
    unfolding square_v2_fp_accept(2) [OF x0 mm t0 gt] area kg by (rule refl)
  show "ok (square_v2_fp (Fin 4) (Fin 1) (Fin 0) M)"
    "wPerUnit (square_v2_fp (Fin 4) (Fin 1) (Fin 0) M) = Fin (3556537661730767 / 2 ^ 50)"
    by (rule v wt)+
qed

lemma square_v2_fp_above_4:
  "ok (square_v2_fp (dbl 4.000000000000001) (Fin 1) (Fin 0) M)"
  "wPerUnit (square_v2_fp (dbl 4.000000000000001) (Fin 1) (Fin 0) M) = Fin (3556537661730751 / 2 ^ 50)"
  "dbl 4.000000000000001 = Fin (4503599627370497 / 2 ^ 50)"
proof -
  have x: "dbl 4.000000000000001 = Fin (4503599627370497 / 2 ^ 50)"
    by (rule dbl_evalI [where k = 2 and m = 4503599627370497]) simp_all
  have c: "dbl 25.4 = Fin (3574732204225331 / 2 ^ 47)"
    by (rule dbl_evalI [where k = 4 and m = 7149464408450662]) simp_all
  have p: "fmul (Fin (4503599627370497 / 2 ^ 50)) (Fin (3574732204225331 / 2 ^ 47)) = Fin (893683051056333 / 2 ^ 43)"
    unfolding fmul_Fin by (rule dbl_evalI [where k = 6 and m = 7149464408450664]) simp_all
  have two: "fmul (Fin 2) (Fin 1) = Fin 2"
    unfolding fmul_Fin by (rule dbl_evalI [where k = 1 and m = 4503599627370496]) simp_all
  have inner: "fsub (Fin (893683051056333 / 2 ^ 43)) (Fin 2) = Fin (876090865011917 / 2 ^ 43)"
    unfolding fsub_Fin by (rule dbl_evalI [where k = 6 and m = 7008726920095336]) simp_all
  have ss: "fmul (Fin (893683051056333 / 2 ^ 43)) (Fin (893683051056333 / 2 ^ 43)) = Fin (1418721843551929 / 2 ^ 37)"
    unfolding fmul_Fin by (rule dbl_evalI [where k = 13 and m = 5674887374207716]) simp_all
  have ii: "fmul (Fin (876090865011917 / 2 ^ 43)) (Fin (876090865011917 / 2 ^ 43)) = Fin (5453665634699185 / 2 ^ 39)"
    unfolding fmul_Fin by (rule dbl_evalI [where k = 13 and m = 5453665634699185]) simp_all
  have d: "fsub (Fin (1418721843551929 / 2 ^ 37)) (Fin (5453665634699185 / 2 ^ 39)) = Fin (221221739508531 / 2 ^ 39)"
    unfolding fsub_Fin by (rule dbl_evalI [where k = 8 and m = 7079095664272992]) simp_all
  have vol: "fmul (Fin (221221739508531 / 2 ^ 39)) (Fin 1000) = Fin (3456589679820797 / 2 ^ 33)"
    unfolding fmul_Fin by (rule dbl_evalI [where k = 18 and m = 6913179359641594]) simp_all
  have rho: "dbl (7.85 / 10 ^ 6) = Fin (4633822111315839 / 2 ^ 69)"
    by (rule dbl_evalI [where k = "- 17" and m = 4633822111315839]) simp_all
  have w: "fmul (Fin (3456589679820797 / 2 ^ 33)) (Fin (4633822111315839 / 2 ^ 69)) = Fin (3556537661730751 / 2 ^ 50)"
    unfolding fmul_Fin by (rule dbl_evalI [where k = 1 and m = 7113075323461502]) simp_all
  have x0: "(0::real) \<le> 4503599627370497 / 2 ^ 50" and t0: "(0::real) < 1" by simp_all
  have mm: "inchesToMm_fp (Fin (4503599627370497 / 2 ^ 50)) = Fin (893683051056333 / 2 ^ 43)"
    unfolding inchesToMm_fp_def IN_TO_MM_fp_def c by (rule p)
  have gt: "fmul (dbl 2) (Fin 1) < Fin (893683051056333 / 2 ^ 43)"
    unfolding dbl_2 two by simp
  have area: "areaSquareTubeMm2_fp (Fin (893683051056333 / 2 ^ 43)) (Fin 1) = Fin (221221739508531 / 2 ^ 39)"
    unfolding areaSquareTubeMm2_fp_def Let_def dbl_2 two inner ss ii d by simp
  have kg: "kgPerUnitFromArea_fp (Fin (221221739508531 / 2 ^ 39)) M = Fin (3556537661730751 / 2 ^ 50)"
    unfolding kgPerUnitFromArea_fp_M dbl_1000 vol rho w by (rule refl)
  have v: "ok (square_v2_fp (Fin (4503599627370497 / 2 ^ 50)) (Fin 1) (Fin 0) M)"
    by (rule square_v2_fp_accept(1) [OF x0 mm t0 gt])
  have wt: "wPerUnit (square_v2_fp (Fin (4503599627370497 / 2 ^ 50)) (Fin 1) (Fin 0) M) = Fin (3556537661730751 / 2 ^ 50)"
    unfolding square_v2_fp_accept(2) [OF x0 mm t0 gt] area kg by (rule refl)
  show "ok (square_v2_fp (dbl 4.000000000000001) (Fin 1) (Fin 0) M)"
    "wPerUnit (square_v2_fp (dbl 4.000000000000001) (Fin 1) (Fin 0) M) = Fin (3556537661730751 / 2 ^ 50)"
    "dbl 4.000000000000001 = Fin (4503599627370497 / 2 ^ 50)"
    unfolding x by (rule v wt refl)+
qed

text \<open>
  The second version at 2 inch with a wall of 1e-15 mm: the inner diameter rounds to the
  outer one, the result is accepted and the weight is zero.
\<close>

lemma round_v2_fp_zero:
  "ok (round_v2_fp (Fin 2) (dbl (1 / 10 ^ 15)) (Fin 0) Ft)"
  "wPerUnit (round_v2_fp (Fin 2) (dbl (1 / 10 ^ 15)) (Fin 0) Ft) = Fin 0"
proof -
  have c: "dbl 25.4 = Fin (3574732204225331 / 2 ^ 47)"
    by (rule dbl_evalI [where k = 4 and m = 7149464408450662]) simp_all
  have t: "dbl (1 / 10 ^ 15) = Fin (2535301200456459 / 2 ^ 101)"
    by (rule dbl_evalI [where k = "- 50" and m = 5070602400912918]) simp_all
  have p: "fmul (Fin 2) (Fin (3574732204225331 / 2 ^ 47)) = Fin (3574732204225331 / 2 ^ 46)"
    unfolding fmul_Fin by (rule dbl_evalI [where k = 5 and m = 7149464408450662]) simp_all
  have two: "fmul (Fin 2) (Fin (2535301200456459 / 2 ^ 101)) = Fin (2535301200456459 / 2 ^ 100)"
    unfolding fmul_Fin by (rule dbl_evalI [where k = "- 49" and m = 5070602400912918]) simp_all
  have inner: "fsub (Fin (3574732204225331 / 2 ^ 46)) (Fin (2535301200456459 / 2 ^ 100)) = Fin (3574732204225331 / 2 ^ 46)"
    unfolding fsub_Fin by (rule dbl_evalI [where k = 5 and m = 7149464408450662]) simp_all
  have x0: "(0::real) \<le> 2" and t0: "(0::real) < 2535301200456459 / 2 ^ 101" by simp_all
  have mm: "inchesToMm_fp (Fin 2) = Fin (3574732204225331 / 2 ^ 46)"
    unfolding inchesToMm_fp_def IN_TO_MM_fp_def c by (rule p)
  have gt: "fmul (dbl 2) (Fin (2535301200456459 / 2 ^ 101)) < Fin (3574732204225331 / 2 ^ 46)"
    unfolding dbl_2 two by simp
  obtain q where q: "fdiv Math_PI_fp (dbl 4) = Fin q" using lit_quarter_pi by blast
  obtain s where s: "fmul (Fin (3574732204225331 / 2 ^ 46)) (Fin (3574732204225331 / 2 ^ 46)) = Fin s"
    unfolding fmul_Fin using dbl_between [where a = 5 and b = 12 and x = "3574732204225331 / 2 ^ 46 * (3574732204225331 / 2 ^ 46)"]
    by auto
  have area: "areaRoundMm2_fp (Fin (3574732204225331 / 2 ^ 46)) (Fin (2535301200456459 / 2 ^ 101)) = Fin 0"
    unfolding areaRoundMm2_fp_def Let_def dbl_2 two inner q s by (simp add: fsub_Fin)
  obtain l where l: "FT_TO_MM_fp = Fin l" using lit_FT_TO_MM by blast
  obtain k where k: "STEEL_DENSITY_KG_PER_MM3_fp = Fin k" using lit_STEEL by blast
  have kg: "kgPerUnitFromArea_fp (Fin 0) Ft = Fin 0"
    unfolding kgPerUnitFromArea_fp_def Let_def l k by simp
  have v: "ok (round_v2_fp (Fin 2) (Fin (2535301200456459 / 2 ^ 101)) (Fin 0) Ft)"
    by (rule round_v2_fp_accept(1) [OF x0 mm t0 gt])
  have wt: "wPerUnit (round_v2_fp (Fin 2) (Fin (2535301200456459 / 2 ^ 101)) (Fin 0) Ft) = Fin 0"
    unfolding round_v2_fp_accept(2) [OF x0 mm t0 gt] area kg by (rule refl)
  show "ok (round_v2_fp (Fin 2) (dbl (1 / 10 ^ 15)) (Fin 0) Ft)"
    "wPerUnit (round_v2_fp (Fin 2) (dbl (1 / 10 ^ 15)) (Fin 0) Ft) = Fin 0"
    unfolding t by (rule v wt)+
qed

text \<open>Version 3 and version 1 at 1e200 by 1e150: accepted, the weight is infinite.\<close>

lemma huge_inputs:
  "between 664 665 (dbl (10 ^ 200))" "between 498 499 (dbl (10 ^ 150))"
  by (simp_all add: between_dbl)

lemma result_fp_overflow:
  "ok3 (result_fp Round Mm (dbl (10 ^ 200)) (Fin 0) (Fin 0) (Fin 0) (dbl (10 ^ 150)) (Fin 0))"
  "wPerM (result_fp Round Mm (dbl (10 ^ 200)) (Fin 0) (Fin 0) (Fin 0) (dbl (10 ^ 150)) (Fin 0)) = PInf"
proof -
  let ?OD = "dbl (10 ^ 200)" and ?T = "dbl (10 ^ 150)"
  note od = huge_inputs(1) and t = huge_inputs(2)
  have two: "between 499 500 (fmul (Fin 2) ?T)"
    using between_fmul [OF between_lits(6) t] by simp
  show v: "ok3 (result_fp Round Mm ?OD (Fin 0) (Fin 0) (Fin 0) ?T (Fin 0))"
    unfolding result_fp_round_ok mm_fp_Mm between_parse(1) [OF od] between_parse(1) [OF t] dbl_2
    by (intro conjI between_gt0 [OF t] between_less [OF two od]) simp
  have d: "between 663 665 (fsub ?OD ?T)"
    using between_fsub_far [OF t od] by simp
  have e: "between 657 660 (fmul (dbl 0.02466) (fsub ?OD ?T))"
    using between_fmul [OF between_lits(4) d] by simp
  have "fmul (fmul (dbl 0.02466) (fsub ?OD ?T)) ?T = PInf"
    by (rule fmul_overflow [OF e t]) simp
  then show "wPerM (result_fp Round Mm ?OD (Fin 0) (Fin 0) (Fin 0) ?T (Fin 0)) = PInf"
    unfolding result_fp_round_weight [OF v] mm_fp_Mm between_parse(1) [OF od]
      between_parse(1) [OF t] .
qed

lemma round_v1_fp_overflow:
  "ok (round_v1_fp (dbl (10 ^ 200)) (dbl (10 ^ 150)) (Fin 0) Ft)"
  "wPerUnit (round_v1_fp (dbl (10 ^ 200)) (dbl (10 ^ 150)) (Fin 0) Ft) = PInf"
proof -
  let ?OD = "dbl (10 ^ 200)" and ?T = "dbl (10 ^ 150)"
  note od = huge_inputs(1) and t = huge_inputs(2)
  obtain p where p: "?OD = Fin p" using between_pos [OF od] by blast
  obtain r where r: "?T = Fin r" "0 < r" using between_pos [OF t] by blast
  have "Fin r < Fin p" using between_less [OF t od] unfolding p r(1) by simp
  then have rp: "r < p" by simp
  show "ok (round_v1_fp ?OD ?T (Fin 0) Ft)"
    unfolding p r(1) by (rule round_v1_fp_accept(1) [OF r(2) rp])
  have d: "between 663 665 (fsub ?OD ?T)"
    using between_fsub_far [OF t od] by simp
  have e: "between 666 669 (fmul (dbl 10.69) (fsub ?OD ?T))"
    using between_fmul [OF between_lits(1) d] by simp
  have "fmul (fmul (dbl 10.69) (fsub ?OD ?T)) ?T = PInf"
    by (rule fmul_overflow [OF e t]) simp
  then have "fmul (fmul (if Ft = Ft then dbl 10.69 else dbl 24.66) (fsub (Fin p) (Fin r))) (Fin r) = PInf"
    unfolding p r(1) by simp
  then show "wPerUnit (round_v1_fp ?OD ?T (Fin 0) Ft) = PInf"
    unfolding p r(1) round_v1_fp_accept(2) [OF r(2) rp] .
qed

text \<open>Version 3 at 1e-200 by 1e-250: accepted, the weight is zero.\<close>

lemma tiny_inputs:
  "between (- 665) (- 664) (dbl (1 / 10 ^ 200))" "between (- 831) (- 830) (dbl (1 / 10 ^ 250))"
  by (simp_all add: between_dbl)

lemma result_fp_underflow:
  "ok3 (result_fp Round Mm (dbl (1 / 10 ^ 200)) (Fin 0) (Fin 0) (Fin 0) (dbl (1 / 10 ^ 250)) (Fin 0))"
  "wPerM (result_fp Round Mm (dbl (1 / 10 ^ 200)) (Fin 0) (Fin 0) (Fin 0) (dbl (1 / 10 ^ 250)) (Fin 0))
     = Fin 0"
proof -
  let ?OD = "dbl (1 / 10 ^ 200)" and ?T = "dbl (1 / 10 ^ 250)"
  note od = tiny_inputs(1) and t = tiny_inputs(2)
  have two: "between (- 830) (- 829) (fmul (Fin 2) ?T)"
    using between_fmul [OF between_lits(6) t] by simp
  show v: "ok3 (result_fp Round Mm ?OD (Fin 0) (Fin 0) (Fin 0) ?T (Fin 0))"
    unfolding result_fp_round_ok mm_fp_Mm between_parse(1) [OF od] between_parse(1) [OF t] dbl_2
    by (intro conjI between_gt0 [OF t] between_less [OF two od]) simp
  have d: "between (- 666) (- 664) (fsub ?OD ?T)"
    using between_fsub_far [OF t od] by simp
  have e: "between (- 672) (- 669) (fmul (dbl 0.02466) (fsub ?OD ?T))"
    using between_fmul [OF between_lits(4) d] by simp
  have "fmul (fmul (dbl 0.02466) (fsub ?OD ?T)) ?T = Fin 0"
    by (rule fmul_underflow [OF e t]) simp
  then show "wPerM (result_fp Round Mm ?OD (Fin 0) (Fin 0) (Fin 0) ?T (Fin 0)) = Fin 0"
    unfolding result_fp_round_weight [OF v] mm_fp_Mm between_parse(1) [OF od]
      between_parse(1) [OF t] .
qed

text \<open>Version 2 at 1e200 inch with a wall of 1 mm: accepted, the weight is NaN.\<close>

lemma round_v2_fp_nan:
  "ok (round_v2_fp (dbl (10 ^ 200)) (Fin 1) (Fin 0) Ft)"
  "wPerUnit (round_v2_fp (dbl (10 ^ 200)) (Fin 1) (Fin 0) Ft) = NaN"
proof -
  note od = huge_inputs(1)
  obtain x where x: "dbl (10 ^ 200) = Fin x" "0 < x" using between_pos [OF od] by blast
  have "between 668 670 (fmul (dbl (10 ^ 200)) IN_TO_MM_fp)"
    using between_fmul [OF od between_lits(5)] by simp
  then have mmb: "between 668 670 (inchesToMm_fp (Fin x))"
    unfolding inchesToMm_fp_def x(1) .
  then obtain p where p: "inchesToMm_fp (Fin x) = Fin p" using between_pos by blast
  have pb: "between 668 670 (Fin p)" using mmb by (simp only: p)
  have x0: "0 \<le> x" and t0: "(0::real) < 1" using x(2) by simp_all
  have two: "fmul (dbl 2) (Fin 1) = Fin 2" by (simp add: fmul_Fin)
  have tb: "between 1 1 (Fin 2)" by simp
  have gt: "fmul (dbl 2) (Fin 1) < Fin p"
    unfolding two using between_less [OF tb pb] by simp
  have i: "between 667 670 (fsub (Fin p) (Fin 2))"
    using between_fsub_far [OF tb pb] by simp
  have pp: "fmul (Fin p) (Fin p) = PInf" by (rule fmul_overflow [OF pb pb]) simp
  have ii: "fmul (fsub (Fin p) (Fin 2)) (fsub (Fin p) (Fin 2)) = PInf"
    by (rule fmul_overflow [OF i i]) simp
  obtain q where q: "fdiv Math_PI_fp (dbl 4) = Fin q" using lit_quarter_pi by blast
  have area: "areaRoundMm2_fp (Fin p) (Fin 1) = NaN"
    unfolding areaRoundMm2_fp_def Let_def two pp ii q using between_gt0 [OF i]
    by (simp add: fsub_def fmul_def)
  have kg: "kgPerUnitFromArea_fp NaN Ft = NaN"
    by (simp add: kgPerUnitFromArea_fp_def Let_def fmul_def)
  show "ok (round_v2_fp (dbl (10 ^ 200)) (Fin 1) (Fin 0) Ft)"
    unfolding x(1) by (rule round_v2_fp_accept(1) [OF x0 p t0 gt])
  show "wPerUnit (round_v2_fp (dbl (10 ^ 200)) (Fin 1) (Fin 0) Ft) = NaN"
    unfolding x(1) round_v2_fp_accept(2) [OF x0 p t0 gt] area kg by (rule refl)
qed

subsection \<open>Dimensions of ordinary size\<close>

lemma double_granular:
  assumes "nearest x = x" "2 powi k \<le> x" "- 1074 \<le> k - 52"
  shows "\<exists>m::int. x = of_int m * 2 powi (k - 52)"
proof -
  have pk: "(0::real) < 2 powi k" by (rule zero_less_power_int) simp
  then have x0: "x \<noteq> 0" "0 < x" using assms(2) by linarith+
  have kb: "k \<le> binade x"
  proof (rule ccontr)
    assume "\<not> k \<le> binade x"
    then have "(2::real) powi (binade x + 1) \<le> 2 powi k"
      by (intro power_int_increasing) simp_all
    then show False using binade_bounds(2) [OF x0(1)] assms(2) x0(2) by simp
  qed
  define e where "e = max (binade x - 52) (- 1074)"
  have e: "k - 52 \<le> e" using kb by (simp add: e_def)
  have "(2::real) powi e = 2 powi (e - (k - 52)) * 2 powi (k - 52)"
    using power_int_add [of "2::real" "e - (k - 52)" "k - 52"] by simp
  moreover have "(2::real) powi (e - (k - 52)) = of_int (2 ^ nat (e - (k - 52)))"
    using e by (simp add: power_int_nonneg_exp)
  moreover have "x = of_int (rne (x / quantum x)) * 2 powi e"
    using assms(1) x0(1) by (simp add: nearest_def quantum_def e_def)
  ultimately have "x = of_int (rne (x / quantum x) * 2 ^ nat (e - (k - 52))) * 2 powi (k - 52)"
    by simp
  then show ?thesis by blast
qed

lemma between_fsub_doubles:
  assumes "is_double (Fin p)" "is_double (Fin r)" "between a b (Fin r)" "between a b (Fin p)"
    and "r < p" "- 1074 \<le> a - 52" "b < 1024"
  shows "between (a - 52) b (fsub (Fin p) (Fin r))"
proof -
  have np: "nearest p = p" and nr: "nearest r = r" using assms(1,2) by (simp_all add: is_double_Fin)
  have bp: "2 powi a \<le> p" "p \<le> 2 powi b" and br: "2 powi a \<le> r" using assms(3,4) by simp_all
  obtain mp :: int where mp: "p = of_int mp * 2 powi (a - 52)"
    using double_granular [OF np bp(1) assms(6)] by blast
  obtain mr :: int where mr: "r = of_int mr * 2 powi (a - 52)"
    using double_granular [OF nr br assms(6)] by blast
  have "p - r = of_int (mp - mr) * 2 powi (a - 52)"
    by (subst mp, subst mr) (simp only: of_int_diff left_diff_distrib)
  moreover have "0 < p - r" using assms(5) by simp
  ultimately have lo: "2 powi (a - 52) \<le> p - r" by (rule multiple_pos_ge)
  have "(0::real) < 2 powi a" by (rule zero_less_power_int) simp
  then have hi: "p - r \<le> 2 powi b" using bp(2) br by linarith
  show ?thesis unfolding fsub_Fin by (intro between_dbl lo hi assms(6,7))
qed

lemma between_fsub_le:
  assumes "between a b (Fin t)" "Fin (2 * t) \<le> OD" "between c d OD" "- 1074 \<le> a" "d < 1024"
  shows "between a d (fsub OD (Fin t))"
proof -
  obtain x where x: "OD = Fin x" "2 powi c \<le> x" "x \<le> 2 powi d"
    using assms(3) by (auto simp: between_iff)
  have t: "2 powi a \<le> t" using assms(1) by simp
  have pa: "(0::real) < 2 powi a" by (rule zero_less_power_int) simp
  have lt: "2 * t \<le> x" using assms(2) x(1) by simp
  then have lo: "2 powi a \<le> x - t" using t by linarith
  have hi: "x - t \<le> 2 powi d" using x(3) t pa by linarith
  show ?thesis
    unfolding x(1) fsub_Fin by (intro between_dbl lo hi assms(4,5))
qed

lemma ordinary_mm_fp:
  assumes "ordinary v"
  shows "between (- 256) 261 (mm_fp u (n v))" "is_double (mm_fp u (n v))"
proof -
  have b: "between (- 256) 256 v" and d: "is_double v" using assms by (simp_all add: ordinary_def)
  show "is_double (mm_fp u (n v))" using d by (rule mm_fp_double)
  show "between (- 256) 261 (mm_fp u (n v))"
  proof (cases u)
    case Mm
    then show ?thesis using between_weaken [OF b, of "- 256" 261] by (simp add: mm_fp_Mm between_parse(1) [OF b])
  next
    case In
    have "between (- 256 + 4) (256 + 5) (fmul v IN_TO_MM_fp)"
      by (rule between_fmul [OF b between_lits(5)]) simp_all
    then have "between (- 256) 261 (fmul v IN_TO_MM_fp)"
      by (rule between_weaken) simp_all
    then show ?thesis using In by (simp add: mm_fp_def between_parse(1) [OF b])
  qed
qed

lemma round_formula_ordinary:
  assumes "between 3 5 (Fin c) \<or> between (- 6) (- 5) (Fin c)"
    and "between (- 308) 261 d" "between (- 256) 261 T"
  shows "\<exists>y>0. fmul (fmul (Fin c) d) T = Fin y"
proof -
  have c: "between (- 6) 5 (Fin c)"
    using assms(1) between_weaken [of 3 5 "Fin c" "- 6" 5]
      between_weaken [of "- 6" "- 5" "Fin c" "- 6" 5] by auto
  have "between (- 6 + - 308) (5 + 261) (fmul (Fin c) d)"
    by (rule between_fmul [OF c assms(2)]) simp_all
  then have "between (- 6 + - 308 + - 256) (5 + 261 + 261) (fmul (fmul (Fin c) d) T)"
    by (rule between_fmul [OF _ assms(3)]) simp_all
  then show ?thesis by (rule between_pos)
qed

lemma square_formula_ordinary:
  assumes "between (- 256) 263 A" "between (- 308) 262 d"
  shows "\<exists>y>0. fdiv (fmul (fmul A d) (dbl 7.85)) (dbl 1000) = Fin y"
proof -
  have "between (- 256 + - 308) (263 + 262) (fmul A d)"
    by (rule between_fmul [OF assms]) simp_all
  then have "between (- 256 + - 308 + 2) (263 + 262 + 3) (fmul (fmul A d) (dbl 7.85))"
    by (rule between_fmul [OF _ between_lits(3)]) simp_all
  then have "between (- 256 + - 308 + 2 - 10) (263 + 262 + 3 - 9)
      (fdiv (fmul (fmul A d) (dbl 7.85)) (Fin 1000))"
    by (rule between_fdiv [OF _ between_lits(8)]) simp_all
  then show ?thesis unfolding dbl_1000 by (rule between_pos)
qed

lemma round_v1_fp_ordinary:
  assumes "ordinary a" "ordinary b" "ok (round_v1_fp a b L u)"
  shows "\<exists>y>0. wPerUnit (round_v1_fp a b L u) = Fin y"
proof -
  obtain p t where v: "a = Fin p" "b = Fin t" "0 < t" "t < p"
    using round_v1_fp_valid [OF assms(3)] by blast
  have o: "is_double (Fin p)" "is_double (Fin t)" "between (- 256) 256 (Fin p)"
      "between (- 256) 256 (Fin t)"
    using assms(1,2) unfolding v(1,2) ordinary_def by simp_all
  have "between (- 256 - 52) 256 (fsub (Fin p) (Fin t))"
    by (rule between_fsub_doubles [OF o(1,2,4,3) v(4)]) simp_all
  then have d: "between (- 308) 261 (fsub (Fin p) (Fin t))"
    by (rule between_weaken) simp_all
  have t: "between (- 256) 261 (Fin t)" using o(4) by (rule between_weaken) simp_all
  obtain c where c: "(if u = Ft then dbl 10.69 else dbl 24.66) = Fin c" "between 3 5 (Fin c)"
  proof (cases "u = Ft")
    case True
    obtain c where "dbl 10.69 = Fin c" using lit_1069 by blast
    moreover have "between 3 5 (dbl 10.69)"
      using between_weaken [OF between_lits(1), of 3 5] by simp
    ultimately show ?thesis using that True by simp
  next
    case False
    obtain c where "dbl 24.66 = Fin c" using lit_2466 by blast
    moreover have "between 3 5 (dbl 24.66)"
      using between_weaken [OF between_lits(2), of 3 5] by simp
    ultimately show ?thesis using that False by simp
  qed
  show ?thesis
    unfolding v(1,2) round_v1_fp_accept(2) [OF v(3,4)] c(1)
    by (rule round_formula_ordinary [OF _ d t]) (simp only: c(2) simp_thms)
qed

lemma square_v1_fp_ordinary:
  assumes "ordinary a" "ordinary b" "ok (square_v1_fp a b L)"
  shows "\<exists>y>0. wPerUnit (square_v1_fp a b L) = Fin y"
proof -
  obtain p t where v: "a = Fin p" "b = Fin t" "0 < t" "t < p"
    using square_v1_fp_valid [OF assms(3)] by blast
  have o: "is_double (Fin p)" "is_double (Fin t)" "between (- 256) 256 (Fin p)"
      "between (- 256) 256 (Fin t)"
    using assms(1,2) unfolding v(1,2) ordinary_def by simp_all
  have "between (- 256 - 52) 256 (fsub (Fin p) (Fin t))"
    by (rule between_fsub_doubles [OF o(1,2,4,3) v(4)]) simp_all
  then have d: "between (- 308) 262 (fsub (Fin p) (Fin t))"
    by (rule between_weaken) simp_all
  have "between (2 + - 256) (2 + 256) (fmul (Fin 4) (Fin t))"
    by (rule between_fmul [OF between_lits(7) o(4)]) simp_all
  then have A: "between (- 256) 263 (fmul (Fin 4) (Fin t))"
    by (rule between_weaken) simp_all
  show ?thesis
    unfolding v(1,2) square_v1_fp_accept(2) [OF v(3,4)] dbl_4
    by (rule square_formula_ordinary [OF A d])
qed

lemma result_fp_ordinary:
  assumes "ok3 (result_fp p u od s w h t L)" "ordinary t"
    and "p = Round \<longrightarrow> ordinary od" "p = Square \<longrightarrow> ordinary s"
    and "p = Rectangle \<longrightarrow> ordinary w \<and> ordinary h"
  shows "\<exists>y>0. wPerM (result_fp p u od s w h t L) = Fin y"
proof -
  have T: "is_double (mm_fp u (n t))" and Tb: "between (- 256) 261 (mm_fp u (n t))"
    using ordinary_mm_fp [OF assms(2)] by simp_all
  show ?thesis
  proof (cases p)
    case Round
    have v: "ok3 (result_fp Round u od s w h t L)" using assms(1) unfolding Round .
    then have ok: "Fin 0 < mm_fp u (n t)" "fmul (dbl 2) (mm_fp u (n t)) < mm_fp u (n od)"
      by (simp_all add: result_fp_round_ok)
    obtain r where r: "mm_fp u (n t) = Fin r" "0 < r" "Fin (2 * r) < mm_fp u (n od)"
      using valid_dims [OF T ok] by blast
    have ODb: "between (- 256) 261 (mm_fp u (n od))"
      using ordinary_mm_fp(1) assms(3) Round by simp
    have rb: "between (- 256) 261 (Fin r)" using Tb unfolding r(1) .
    have "between (- 256) 261 (fsub (mm_fp u (n od)) (Fin r))"
      by (rule between_fsub [OF rb r(3) ODb]) simp_all
    then have d: "between (- 308) 261 (fsub (mm_fp u (n od)) (Fin r))"
      by (rule between_weaken) simp_all
    obtain c where c: "dbl 0.02466 = Fin c" using lit_002466 by blast
    have cb: "between (- 6) (- 5) (Fin c)" using between_lits(4) unfolding c .
    show ?thesis
      unfolding Round result_fp_round_weight [OF v] r(1) c
      by (rule round_formula_ordinary [OF _ d rb]) (simp only: cb simp_thms)
  next
    case Square
    have v: "ok3 (result_fp Square u od s w h t L)" using assms(1) unfolding Square .
    then have ok: "Fin 0 < mm_fp u (n t)" "fmul (dbl 2) (mm_fp u (n t)) < mm_fp u (n s)"
      by (simp_all add: result_fp_square_ok)
    obtain r where r: "mm_fp u (n t) = Fin r" "0 < r" "Fin (2 * r) < mm_fp u (n s)"
      using valid_dims [OF T ok] by blast
    have Sb: "between (- 256) 261 (mm_fp u (n s))"
      using ordinary_mm_fp(1) assms(4) Square by simp
    have rb: "between (- 256) 261 (Fin r)" using Tb unfolding r(1) .
    have "between (- 256) 261 (fsub (mm_fp u (n s)) (Fin r))"
      by (rule between_fsub [OF rb r(3) Sb]) simp_all
    then have d: "between (- 308) 262 (fsub (mm_fp u (n s)) (Fin r))"
      by (rule between_weaken) simp_all
    have "between (2 + - 256) (2 + 261) (fmul (Fin 4) (Fin r))"
      by (rule between_fmul [OF between_lits(7) rb]) simp_all
    then have A: "between (- 256) 263 (fmul (Fin 4) (Fin r))"
      by (rule between_weaken) simp_all
    show ?thesis
      unfolding Square result_fp_square_weight [OF v] r(1) dbl_4
      by (rule square_formula_ordinary [OF A d])
  next
    case Rectangle
    have v: "ok3 (result_fp Rectangle u od s w h t L)" using assms(1) unfolding Rectangle .
    then have ok: "Fin 0 < mm_fp u (n t)" "fmul (dbl 2) (mm_fp u (n t)) < mm_fp u (n w)"
        "fmul (dbl 2) (mm_fp u (n t)) < mm_fp u (n h)"
      by (simp_all add: result_fp_rectangle_ok)
    obtain r where r: "mm_fp u (n t) = Fin r" "0 < r"
        "Fin (2 * r) < mm_fp u (n w)" "fmul (dbl 2) (mm_fp u (n t)) = Fin (2 * r)"
      using valid_dims [OF T ok(1,2)] by blast
    have hgt: "Fin (2 * r) < mm_fp u (n h)" using ok(3) unfolding r(4) .
    have Wb: "between (- 256) 261 (mm_fp u (n w))" and Hb: "between (- 256) 261 (mm_fp u (n h))"
      using ordinary_mm_fp(1) assms(5) Rectangle by simp_all
    have rb: "between (- 256) 261 (Fin r)" using Tb unfolding r(1) .
    have "between (1 + - 256) (1 + 261) (fmul (Fin 2) (Fin r))"
      by (rule between_fmul [OF between_lits(6) rb]) simp_all
    then have "between (1 + - 256) (1 + 261) (Fin (2 * r))"
      using r(4) unfolding r(1) dbl_2 by simp
    then have r2: "between (- 256) 262 (Fin (2 * r))"
      by (rule between_weaken) simp_all
    have "between (- 256) (max 261 261 + 1) (fadd (mm_fp u (n w)) (mm_fp u (n h)))"
      by (rule between_fadd [OF Wb Hb]) simp_all
    then have sum: "between (- 256) 262 (fadd (mm_fp u (n w)) (mm_fp u (n h)))" by simp
    obtain x y where xy: "mm_fp u (n w) = Fin x" "mm_fp u (n h) = Fin y"
      using between_pos [OF Wb] between_pos [OF Hb] by blast
    have "2 * (2 * r) \<le> x + y" using r(3) hgt unfolding xy by simp
    then have "dbl (2 * (2 * r)) \<le> dbl (x + y)" by (rule dbl_mono)
    moreover have "dbl (2 * (2 * r)) = Fin (2 * (2 * r))"
    proof -
      have "is_double (Fin (2 * r))" using is_double_ops(3) [of "dbl 2" "mm_fp u (n t)"]
        unfolding r(4) .
      moreover have "0 < 2 * r" using r(2) by simp
      ultimately have "fmul (dbl 2) (Fin (2 * r)) = PInf
          \<or> fmul (dbl 2) (Fin (2 * r)) = Fin (2 * (2 * r))"
        by (rule fmul_2)
      moreover have "between (1 + - 256) (1 + 262) (fmul (Fin 2) (Fin (2 * r)))"
        by (rule between_fmul [OF between_lits(6) r2]) simp_all
      then have "fmul (dbl 2) (Fin (2 * r)) \<noteq> PInf"
        unfolding dbl_2 using between_pos by force
      ultimately show ?thesis by (simp add: fmul_Fin)
    qed
    ultimately have ge: "Fin (2 * (2 * r)) \<le> fadd (mm_fp u (n w)) (mm_fp u (n h))"
      unfolding xy fadd_Fin by simp
    have "between (- 256) 262 (fsub (fadd (mm_fp u (n w)) (mm_fp u (n h))) (Fin (2 * r)))"
      by (rule between_fsub_le [OF r2 ge sum]) simp_all
    then have d: "between (- 308) 262
        (fsub (fadd (mm_fp u (n w)) (mm_fp u (n h))) (Fin (2 * r)))"
      by (rule between_weaken) simp_all
    have A: "between (- 256) 263 (Fin (2 * r))"
      using r2 by (rule between_weaken) simp_all
    show ?thesis
      unfolding Rectangle result_fp_rectangle_weight [OF v] r(4)
      by (rule square_formula_ordinary [OF A d])
  qed
qed

subsection \<open>The second version on dimensions of ordinary size\<close>

lemma kgPerUnitFromArea_fp_mono:
  assumes "A \<le> B"
  shows "kgPerUnitFromArea_fp A u \<le> kgPerUnitFromArea_fp B u"
proof -
  obtain l where l: "0 < l" "(if u = Ft then FT_TO_MM_fp else M_TO_MM_fp) = Fin l"
    using lit_FT_TO_MM lit_M_TO_MM by (cases "u = Ft") auto
  obtain d where d: "0 < d" "STEEL_DENSITY_KG_PER_MM3_fp = Fin d" using lit_STEEL by blast
  show ?thesis
    unfolding kgPerUnitFromArea_fp_def Let_def l(2) d(2)
    by (intro fmul_mono_right l(1) d(1) assms)
qed

lemma dbl_upto:
  assumes "0 \<le> x" "x \<le> 2 powi b" "- 1074 \<le> b" "b < 1024"
  shows "\<exists>y. dbl x = Fin y \<and> 0 \<le> y \<and> y \<le> 2 powi b"
proof -
  have lo: "0 \<le> nearest x" using assms(1) by (rule nearest_nonneg)
  have hi: "nearest x \<le> 2 powi b" using assms(2,3) by (rule nearest_le_pow2)
  have "(2::real) powi b < 2 powi 1024"
    using assms(4) by (intro power_int_strict_increasing) simp_all
  then have "\<not> 2 powi 1024 \<le> \<bar>nearest x\<bar>" using lo hi by linarith
  then have "dbl x = Fin (nearest x)" by (simp only: dbl_def Let_def if_False)
  then show ?thesis using lo hi by blast
qed

lemma fmul_upto:
  assumes "u = Fin x" "0 \<le> x" "x \<le> 2 powi a" "between c d v" "- 1074 \<le> a + d" "a + d < 1024"
  shows "\<exists>y. fmul u v = Fin y \<and> 0 \<le> y \<and> y \<le> 2 powi (a + d)"
    and "\<exists>y. fmul v u = Fin y \<and> 0 \<le> y \<and> y \<le> 2 powi (a + d)"
proof -
  obtain z where z: "v = Fin z" "2 powi c \<le> z" "z \<le> 2 powi d"
    using assms(4) by (auto simp: between_iff)
  have pc: "(0::real) < 2 powi c" and pa: "(0::real) \<le> 2 powi a"
    by (simp_all add: less_imp_le)
  have z0: "0 \<le> z" using z(2) pc by linarith
  have "x * z \<le> 2 powi a * 2 powi d"
    by (intro mult_mono assms(2,3) z(3) z0 pa)
  then have hi: "x * z \<le> 2 powi (a + d)" by (simp add: power_int_add)
  have lo: "0 \<le> x * z" using assms(2) z0 by simp
  show "\<exists>y. fmul u v = Fin y \<and> 0 \<le> y \<and> y \<le> 2 powi (a + d)"
    unfolding assms(1) z(1) fmul_Fin by (rule dbl_upto [OF lo hi assms(5,6)])
  show "\<exists>y. fmul v u = Fin y \<and> 0 \<le> y \<and> y \<le> 2 powi (a + d)"
    unfolding assms(1) z(1) fmul_Fin mult.commute [of z x] by (rule dbl_upto [OF lo hi assms(5,6)])
qed

lemma quarter_pi_between: "between (- 1) 0 (fdiv Math_PI_fp (dbl 4))"
proof -
  have "2 powi 1 \<le> pi" "pi \<le> 2 powi 2" using pi_ge_two pi_less_4 by simp_all
  then have "between 1 2 (dbl pi)" by (intro between_dbl) simp_all
  then have "between (1 - 2) (2 - 2) (fdiv (dbl pi) (Fin 4))"
    by (rule between_fdiv [OF _ between_lits(7)]) simp_all
  then show ?thesis by (simp add: Math_PI_fp_def)
qed

lemma squares_difference_upto:
  assumes "is_double (Fin p)" "between (- 256) 261 (Fin p)" "0 < t" "is_double (Fin t)"
    and "fmul (dbl 2) (Fin t) < Fin p"
  shows "\<exists>i d. fsub (Fin p) (fmul (dbl 2) (Fin t)) = Fin i \<and> 0 < i
     \<and> fsub (fmul (Fin p) (Fin p)) (fmul (Fin i) (Fin i)) = Fin d \<and> 0 \<le> d \<and> d \<le> 2 powi 522"
proof -
  have p: "2 powi (- 256) \<le> p" "p \<le> 2 powi 261" using assms(2) by simp_all
  have two: "fmul (dbl 2) (Fin t) = Fin (2 * t)"
    using fmul_2 [OF assms(4,3)] assms(5) by auto
  have d2: "is_double (Fin (2 * t))" using is_double_ops(3) [of "dbl 2" "Fin t"] unfolding two .
  have lt: "2 * t < p" using assms(5) unfolding two by simp
  have pos: "Fin 0 < fsub (Fin p) (Fin (2 * t))"
    using assms(1) d2 lt by (rule fsub_double_pos)
  have "dbl (p - 2 * t) \<le> dbl p" using assms(3) by (intro dbl_mono) simp
  moreover have "dbl p = Fin p" using assms(1) by (simp add: is_double_def)
  ultimately have le: "fsub (Fin p) (Fin (2 * t)) \<le> Fin p" by (simp add: fsub_Fin)
  obtain i where i: "fsub (Fin p) (Fin (2 * t)) = Fin i" "0 < i" "i \<le> p"
    using pos le by (cases "fsub (Fin p) (Fin (2 * t))") simp_all
  have pp: "between (- 256 + - 256) (261 + 261) (fmul (Fin p) (Fin p))"
    by (rule between_fmul [OF assms(2) assms(2)]) simp_all
  then obtain x where x: "fmul (Fin p) (Fin p) = Fin x" "x \<le> 2 powi 522"
    by (auto simp: between_iff)
  have "i * i \<le> p * p" using i(2,3) by (intro mult_mono) simp_all
  then have "dbl (i * i) \<le> dbl (p * p)" by (rule dbl_mono)
  moreover have "Fin 0 \<le> dbl (i * i)" by (intro dbl_nonneg) simp
  ultimately obtain y where y: "fmul (Fin i) (Fin i) = Fin y" "0 \<le> y" "y \<le> x"
    using x(1) unfolding fmul_Fin by (cases "dbl (i * i)") simp_all
  have "0 \<le> x - y" "x - y \<le> 2 powi 522" using y(2,3) x(2) by linarith+
  then obtain d where d: "dbl (x - y) = Fin d" "0 \<le> d" "d \<le> 2 powi 522"
    using dbl_upto [of "x - y" 522] by auto
  have "fsub (fmul (Fin p) (Fin p)) (fmul (Fin i) (Fin i)) = Fin d"
    unfolding x(1) y(1) fsub_Fin by (rule d(1))
  then show ?thesis
    unfolding two using i(1,2) d(2,3) by blast
qed

lemma kgPerUnitFromArea_fp_upto:
  assumes "0 \<le> a" "a \<le> 2 powi 522"
  shows "\<exists>y\<ge>0. kgPerUnitFromArea_fp (Fin a) u = Fin y"
proof -
  have l: "between 8 10 (if u = Ft then FT_TO_MM_fp else M_TO_MM_fp)"
    using between_weaken [OF between_lits(9), of 8 10] between_weaken [OF between_lits(10), of 8 10]
    by simp
  obtain v where v: "fmul (Fin a) (if u = Ft then FT_TO_MM_fp else M_TO_MM_fp) = Fin v"
      "0 \<le> v" "v \<le> 2 powi (522 + 10)"
    using fmul_upto(1) [OF refl assms l] by auto
  obtain w where "fmul (Fin v) STEEL_DENSITY_KG_PER_MM3_fp = Fin w" "0 \<le> w"
    using fmul_upto(1) [OF refl v(2,3) between_lits(11)] by auto
  then show ?thesis
    unfolding kgPerUnitFromArea_fp_def Let_def v(1) by blast
qed

lemma v2_fp_ordinary:
  assumes "ordinary a" "ordinary b"
    and "Fin 0 < clampNonNegative (num b)"
    and "fmul (dbl 2) (clampNonNegative (num b)) < inchesToMm_fp (clampNonNegative (num a))"
  shows "\<exists>p t. inchesToMm_fp (clampNonNegative (num a)) = Fin p \<and> clampNonNegative (num b) = Fin t
     \<and> is_double (Fin p) \<and> between (- 256) 261 (Fin p) \<and> 0 < t \<and> is_double (Fin t)
     \<and> fmul (dbl 2) (Fin t) < Fin p"
proof -
  have a: "between (- 256) 256 a" and b: "between (- 256) 256 b" "is_double b"
    using assms(1,2) by (simp_all add: ordinary_def)
  have pa: "clampNonNegative (num a) = a" and pb: "clampNonNegative (num b) = b"
    using between_parse(2,3) [OF a] between_parse(2,3) [OF b(1)] by simp_all
  have "between (- 256 + 4) (256 + 5) (fmul a IN_TO_MM_fp)"
    by (rule between_fmul [OF a between_lits(5)]) simp_all
  then have m: "between (- 256) 261 (inchesToMm_fp a)"
    unfolding inchesToMm_fp_def by (rule between_weaken) simp_all
  then obtain p where p: "inchesToMm_fp a = Fin p" by (auto simp: between_iff)
  have dp: "is_double (inchesToMm_fp a)" by (simp add: inchesToMm_fp_def)
  obtain t where t: "b = Fin t" "0 < t" using between_pos [OF b(1)] by blast
  have 1: "inchesToMm_fp (clampNonNegative (num a)) = Fin p" unfolding pa by (rule p)
  have 2: "clampNonNegative (num b) = Fin t" unfolding pb by (rule t(1))
  have 3: "is_double (Fin p)" using dp unfolding p .
  have 4: "between (- 256) 261 (Fin p)" using m unfolding p .
  have 5: "is_double (Fin t)" using b(2) unfolding t(1) .
  have 6: "fmul (dbl 2) (Fin t) < Fin p" using assms(4) unfolding 1 2 .
  show ?thesis using 1 2 3 4 t(2) 5 6 by blast
qed

lemma round_v2_fp_ordinary:
  assumes "ordinary a" "ordinary b" "ok (round_v2_fp a b L u)"
  shows "\<exists>y\<ge>0. wPerUnit (round_v2_fp a b L u) = Fin y"
proof -
  let ?od = "if isFinite (clampNonNegative (num a))
             then inchesToMm_fp (clampNonNegative (num a)) else NaN"
  have fa: "isFinite (clampNonNegative (num a))"
    using assms(1) between_parse [of "- 256" 256 a] by (simp add: ordinary_def)
  have v: "Fin 0 < clampNonNegative (num b)"
      "fmul (dbl 2) (clampNonNegative (num b)) < inchesToMm_fp (clampNonNegative (num a))"
    and w: "wPerUnit (round_v2_fp a b L u)
        = kgPerUnitFromArea_fp (areaRoundMm2_fp (inchesToMm_fp (clampNonNegative (num a)))
            (clampNonNegative (num b))) u"
    using assms(3) fa by (simp_all add: round_v2_fp_def Let_def split: if_splits)
  obtain p t where pt: "inchesToMm_fp (clampNonNegative (num a)) = Fin p"
      "clampNonNegative (num b) = Fin t" "is_double (Fin p)" "between (- 256) 261 (Fin p)"
      "0 < t" "is_double (Fin t)" "fmul (dbl 2) (Fin t) < Fin p"
    using v2_fp_ordinary [OF assms(1,2) v] by blast
  obtain i d where id: "fsub (Fin p) (fmul (dbl 2) (Fin t)) = Fin i" "0 < i"
      "fsub (fmul (Fin p) (Fin p)) (fmul (Fin i) (Fin i)) = Fin d" "0 \<le> d" "d \<le> 2 powi 522"
    using squares_difference_upto [OF pt(3,4,5,6,7)] by blast
  obtain e where e: "fmul (fdiv Math_PI_fp (dbl 4)) (Fin d) = Fin e" "0 \<le> e"
      "e \<le> 2 powi (522 + 0)"
    using fmul_upto(2) [OF refl id(4,5) quarter_pi_between] by auto
  have "areaRoundMm2_fp (Fin p) (Fin t) = Fin e"
    unfolding areaRoundMm2_fp_def Let_def id(1) id(3) e(1) using id(2) by simp
  moreover have "e \<le> 2 powi 522" using e(3) by simp
  ultimately show ?thesis
    unfolding w pt(1,2) using kgPerUnitFromArea_fp_upto [OF e(2), of u] by simp
qed

lemma square_v2_fp_ordinary:
  assumes "ordinary a" "ordinary b" "ok (square_v2_fp a b L u)"
  shows "\<exists>y\<ge>0. wPerUnit (square_v2_fp a b L u) = Fin y"
proof -
  have fa: "isFinite (clampNonNegative (num a))"
    using assms(1) between_parse [of "- 256" 256 a] by (simp add: ordinary_def)
  have v: "Fin 0 < clampNonNegative (num b)"
      "fmul (dbl 2) (clampNonNegative (num b)) < inchesToMm_fp (clampNonNegative (num a))"
    and w: "wPerUnit (square_v2_fp a b L u)
        = kgPerUnitFromArea_fp (areaSquareTubeMm2_fp (inchesToMm_fp (clampNonNegative (num a)))
            (clampNonNegative (num b))) u"
    using assms(3) fa by (simp_all add: square_v2_fp_def Let_def split: if_splits)
  obtain p t where pt: "inchesToMm_fp (clampNonNegative (num a)) = Fin p"
      "clampNonNegative (num b) = Fin t" "is_double (Fin p)" "between (- 256) 261 (Fin p)"
      "0 < t" "is_double (Fin t)" "fmul (dbl 2) (Fin t) < Fin p"
    using v2_fp_ordinary [OF assms(1,2) v] by blast
  obtain i d where id: "fsub (Fin p) (fmul (dbl 2) (Fin t)) = Fin i" "0 < i"
      "fsub (fmul (Fin p) (Fin p)) (fmul (Fin i) (Fin i)) = Fin d" "0 \<le> d" "d \<le> 2 powi 522"
    using squares_difference_upto [OF pt(3,4,5,6,7)] by blast
  have "areaSquareTubeMm2_fp (Fin p) (Fin t) = Fin d"
    unfolding areaSquareTubeMm2_fp_def Let_def id(1) id(3) using id(2) by simp
  then show ?thesis
    unfolding w pt(1,2) using kgPerUnitFromArea_fp_upto [OF id(4,5), of u] by simp
qed

section \<open>Claims\<close>

subsection \<open>C1: weight per run unit of a round tube\<close>




subsection \<open>C2: the validity rule\<close>

text \<open>
  C2, as amended. With all dimensions normalised to millimetres, the second and third
  versions report a profile valid iff thickness \<open>> 0\<close> and every outer dimension of the
  shape \<open>> 2 \<times>\<close> thickness (round: diameter; square: side; rectangle: width and height);
  an outer dimension equal to twice the thickness is invalid. The first version, which
  has round and square only, reports valid iff thickness \<open>> 0\<close> and the outer dimension
  \<open>>\<close> thickness.
\<close>

theorem validity_rules:
  "ok (round_v2 odIn thMm L runUnit) = spec_valid (normalized_round_v2 odIn thMm)
   \<and> ok (square_v2 sideIn thMm L runUnit) = spec_valid (normalized_square_v2 sideIn thMm)
   \<and> ok3 (result pipeType unit od side width height thickness L)
       = spec_valid (normalized_v3 pipeType unit od side width height thickness)
   \<and> ok (round_v2 (Fin (2 * t / 25.4)) (Fin t) L runUnit) = False
   \<and> ok (square_v2 (Fin (2 * t / 25.4)) (Fin t) L runUnit) = False
   \<and> ok3 (result Round unit (Fin (2 * t)) side width height (Fin t) L) = False
   \<and> ok3 (result Square unit od (Fin (2 * t)) width height (Fin t) L) = False
   \<and> ok3 (result Rectangle unit od side (Fin (2 * t)) height (Fin t) L) = False
   \<and> ok3 (result Rectangle unit od side width (Fin (2 * t)) (Fin t) L) = False
   \<and> ok (round_v1 odIn thIn L runUnit)
       = v1_accepts (clampNonNegative (num odIn)) (clampNonNegative (num thIn))
   \<and> ok (square_v1 sideIn thMm L)
       = v1_accepts (clampNonNegative (num sideIn)) (clampNonNegative (num thMm))"
proof -
  have "\<not> spec_feasible (mm unit (n (Fin (2 * t)))) (mm unit (n (Fin t)))"
    by (cases unit) simp_all
  then have "\<not> spec_valid (normalized_v3 Round unit (Fin (2 * t)) side width height (Fin t))"
    and "\<not> spec_valid (normalized_v3 Square unit od (Fin (2 * t)) width height (Fin t))"
    and "\<not> spec_valid (normalized_v3 Rectangle unit od side (Fin (2 * t)) height (Fin t))"
    and "\<not> spec_valid (normalized_v3 Rectangle unit od side width (Fin (2 * t)) (Fin t))"
    by (simp_all add: normalized_v3_def)
  moreover have "\<not> spec_feasible (inchesToMm (clampNonNegative (num (Fin (2 * t / 25.4)))))
      (clampNonNegative (num (Fin t)))"
    by simp
  ultimately show ?thesis
    by (simp add: round_v2_ok_iff square_v2_ok_iff result_ok_iff round_v1_ok_iff square_v1_ok_iff
        normalized_round_v2_def normalized_square_v2_def)
qed

text \<open>
  The theorem at a 40 by 20 rectangle of thickness 10 (height equal to twice the
  thickness), at 2 inch by 1.1 inch, at a 50 by 2 square and at 2 inch by 2 mm and by
  25.4 mm.
\<close>

theorem validity_rules_witness:
  "ok3 (result Rectangle Mm NaN NaN (Fin 40) (Fin 20) (Fin 10) NaN) = False
   \<and> ok3 (result Round In (Fin 2) NaN NaN NaN (Fin 1.1) NaN) = False
   \<and> ok3 (result Square Mm NaN (Fin 50) NaN NaN (Fin 2) NaN) = True
   \<and> ok (round_v2 (Fin 2) (Fin 2) NaN Ft) = True
   \<and> ok (round_v2 (Fin 2) (Fin 25.4) NaN Ft) = False"
  using validity_rules [where pipeType = Rectangle and unit = Mm and width = "Fin 40"
      and height = "Fin 20" and thickness = "Fin 10"]
    validity_rules [where pipeType = Round and unit = In and od = "Fin 2" and thickness = "Fin 1.1"]
    validity_rules [where pipeType = Square and unit = Mm and side = "Fin 50" and thickness = "Fin 2"]
    validity_rules [where odIn = "Fin 2" and thMm = "Fin 2"]
    validity_rules [where odIn = "Fin 2" and thMm = "Fin 25.4"]
  by (simp add: normalized_v3_def normalized_round_v2_def)

text \<open>
  C2 as stated fails on the first version: a 3 mm square of thickness 2 mm and a 1.5 inch
  round of thickness 1 inch are reported valid, though the outer dimension is less than
  twice the thickness.
\<close>

theorem v1_accepts_infeasible_wall:
  "\<not> (ok (square_v1 (Fin 3) (Fin 2) NaN) \<longleftrightarrow> spec_valid (SquareTube (Fin 3) (Fin 2)))
   \<and> \<not> (ok (round_v1 (Fin 1.5) (Fin 1) NaN Ft) \<longleftrightarrow> spec_valid (RoundTube (Fin 1.5) (Fin 1)))"
  by (simp add: square_v1_accept round_v1_accept)

subsection \<open>C3: the invalid result\<close>

text \<open>
  C3, as amended. Whenever a dimension of the active profile is NaN, or the version's
  feasibility rule fails (second and third version: the rule of the specification; first
  version: thickness \<open>> 0\<close> and outer dimension \<open>>\<close> thickness), the program returns the
  result with valid false, weight per unit NaN and total weight NaN; in particular a NaN
  in the profile always gives valid false.
\<close>

theorem invalid_short_circuit:
  "(has_nan (normalized_round_v2 odIn thMm) \<or> \<not> spec_valid (normalized_round_v2 odIn thMm) \<longrightarrow>
      round_v2 odIn thMm L runUnit =
        \<lparr>ok = False, unitLabel = (if runUnit = Ft then ''kg/ft'' else ''kg/m''),
         wPerUnit = NaN, total = NaN\<rparr>)
   \<and> (has_nan (normalized_square_v2 sideIn thMm) \<or> \<not> spec_valid (normalized_square_v2 sideIn thMm) \<longrightarrow>
      square_v2 sideIn thMm L runUnit =
        \<lparr>ok = False, unitLabel = (if runUnit = Ft then ''kg/ft'' else ''kg/m''),
         wPerUnit = NaN, total = NaN\<rparr>)
   \<and> (has_nan (normalized_v3 pipeType unit od side width height thickness)
        \<or> \<not> spec_valid (normalized_v3 pipeType unit od side width height thickness) \<longrightarrow>
      result pipeType unit od side width height thickness L
        = \<lparr>ok3 = False, wPerM = NaN, total3 = NaN\<rparr>)
   \<and> (clampNonNegative (num odIn) = NaN \<or> clampNonNegative (num thIn) = NaN
        \<or> \<not> v1_accepts (clampNonNegative (num odIn)) (clampNonNegative (num thIn)) \<longrightarrow>
      round_v1 odIn thIn L runUnit =
        \<lparr>ok = False, unitLabel = (if runUnit = Ft then ''kg/ft'' else ''kg/m''),
         wPerUnit = NaN, total = NaN\<rparr>)
   \<and> (clampNonNegative (num sideIn) = NaN \<or> clampNonNegative (num thMm) = NaN
        \<or> \<not> v1_accepts (clampNonNegative (num sideIn)) (clampNonNegative (num thMm)) \<longrightarrow>
      square_v1 sideIn thMm L =
        \<lparr>ok = False, unitLabel = ''kg/m'', wPerUnit = NaN, total = NaN\<rparr>)"
proof -
  have v1: "\<not> v1_accepts X Y" if "X = NaN \<or> Y = NaN" for X Y
    using that by (cases X; cases Y) auto
  show ?thesis
    using result_reject [of pipeType unit od side width height thickness L]
      has_nan_not_valid [of "normalized_round_v2 odIn thMm"]
      has_nan_not_valid [of "normalized_square_v2 sideIn thMm"]
      has_nan_not_valid [of "normalized_v3 pipeType unit od side width height thickness"]
      v1 [of "clampNonNegative (num odIn)" "clampNonNegative (num thIn)"]
      v1 [of "clampNonNegative (num sideIn)" "clampNonNegative (num thMm)"]
    by (auto simp: round_v2_reject square_v2_reject round_v1_reject square_v1_reject
        normalized_round_v2_def normalized_square_v2_def invalid_def)
qed

text \<open>
  The theorem at a NaN thickness, at a rectangle whose height is twice the thickness, at
  2 inch by 27.94 mm (1.1 inch) and at a NaN diameter.
\<close>

theorem invalid_short_circuit_witness:
  "result Round Mm (Fin 50.8) NaN NaN NaN NaN (Fin 6) = \<lparr>ok3 = False, wPerM = NaN, total3 = NaN\<rparr>
   \<and> result Rectangle Mm NaN NaN (Fin 40) (Fin 20) (Fin 10) (Fin 6)
       = \<lparr>ok3 = False, wPerM = NaN, total3 = NaN\<rparr>
   \<and> round_v2 (Fin 2) (Fin 27.94) (Fin 6) M
       = \<lparr>ok = False, unitLabel = ''kg/m'', wPerUnit = NaN, total = NaN\<rparr>
   \<and> round_v1 NaN (Fin 0.1) (Fin 6) Ft
       = \<lparr>ok = False, unitLabel = ''kg/ft'', wPerUnit = NaN, total = NaN\<rparr>"
  using invalid_short_circuit [where pipeType = Round and unit = Mm and od = "Fin 50.8"
      and thickness = NaN and L = "Fin 6"]
    invalid_short_circuit [where pipeType = Rectangle and unit = Mm and width = "Fin 40"
      and height = "Fin 20" and thickness = "Fin 10" and L = "Fin 6"]
    invalid_short_circuit [where odIn = "Fin 2" and thMm = "Fin 27.94" and L = "Fin 6" and runUnit = M]
    invalid_short_circuit [where odIn = NaN and thIn = "Fin 0.1" and L = "Fin 6" and runUnit = Ft]
  by (simp add: normalized_v3_def normalized_round_v2_def)

text \<open>
  C3 as stated fails on the first version: 1.5 inch by 1 inch fails the feasibility rule of
  the specification, and the result is valid with a finite weight.
\<close>

theorem v1_weight_for_infeasible_wall:
  "\<not> spec_valid (RoundTube (Fin 1.5) (Fin 1))
   \<and> round_v1 (Fin 1.5) (Fin 1) NaN M
       = \<lparr>ok = True, unitLabel = ''kg/m'', wPerUnit = Fin 12.33, total = NaN\<rparr>"
  by (simp add: round_v1_accept spec_totalWeight_def)

subsection \<open>C4: total weight\<close>

text \<open>
  C4. In every version the total weight is the weight per unit times the run length when
  the run length is finite and strictly positive, and NaN otherwise; the weight per unit
  and the validity flag do not depend on the run length. Every function of the model is
  total: a result is returned for every input.
\<close>

theorem total_weight_rule:
  "total (round_v1 odIn thIn L runUnit) = spec_totalWeight (wPerUnit (round_v1 odIn thIn L runUnit)) L
   \<and> wPerUnit (round_v1 odIn thIn L runUnit) = wPerUnit (round_v1 odIn thIn L' runUnit)
   \<and> ok (round_v1 odIn thIn L runUnit) = ok (round_v1 odIn thIn L' runUnit)
   \<and> total (square_v1 sideIn thMm L) = spec_totalWeight (wPerUnit (square_v1 sideIn thMm L)) L
   \<and> wPerUnit (square_v1 sideIn thMm L) = wPerUnit (square_v1 sideIn thMm L')
   \<and> ok (square_v1 sideIn thMm L) = ok (square_v1 sideIn thMm L')
   \<and> total (round_v2 odIn thMm L runUnit) = spec_totalWeight (wPerUnit (round_v2 odIn thMm L runUnit)) L
   \<and> wPerUnit (round_v2 odIn thMm L runUnit) = wPerUnit (round_v2 odIn thMm L' runUnit)
   \<and> ok (round_v2 odIn thMm L runUnit) = ok (round_v2 odIn thMm L' runUnit)
   \<and> total (square_v2 sideIn thMm L runUnit) = spec_totalWeight (wPerUnit (square_v2 sideIn thMm L runUnit)) L
   \<and> wPerUnit (square_v2 sideIn thMm L runUnit) = wPerUnit (square_v2 sideIn thMm L' runUnit)
   \<and> ok (square_v2 sideIn thMm L runUnit) = ok (square_v2 sideIn thMm L' runUnit)
   \<and> total3 (result pipeType unit od side width height thickness L)
       = spec_totalWeight (wPerM (result pipeType unit od side width height thickness L)) L
   \<and> wPerM (result pipeType unit od side width height thickness L)
       = wPerM (result pipeType unit od side width height thickness L')
   \<and> ok3 (result pipeType unit od side width height thickness L)
       = ok3 (result pipeType unit od side width height thickness L')"
proof -
  obtain w1 where "\<forall>L. round_v1 odIn thIn L runUnit =
     \<lparr>ok = v1_accepts (clampNonNegative (num odIn)) (clampNonNegative (num thIn)),
      unitLabel = (if runUnit = Ft then ''kg/ft'' else ''kg/m''),
      wPerUnit = w1, total = spec_totalWeight w1 L\<rparr>"
    using round_v1_shape by blast
  moreover obtain w2 where "\<forall>L. square_v1 sideIn thMm L =
     \<lparr>ok = v1_accepts (clampNonNegative (num sideIn)) (clampNonNegative (num thMm)),
      unitLabel = ''kg/m'', wPerUnit = w2, total = spec_totalWeight w2 L\<rparr>"
    using square_v1_shape by blast
  moreover obtain w3 where "\<forall>L. round_v2 odIn thMm L runUnit =
     \<lparr>ok = spec_valid (normalized_round_v2 odIn thMm),
      unitLabel = (if runUnit = Ft then ''kg/ft'' else ''kg/m''),
      wPerUnit = w3, total = spec_totalWeight w3 L\<rparr>"
    using round_v2_shape by blast
  moreover obtain w4 where "\<forall>L. square_v2 sideIn thMm L runUnit =
     \<lparr>ok = spec_valid (normalized_square_v2 sideIn thMm),
      unitLabel = (if runUnit = Ft then ''kg/ft'' else ''kg/m''),
      wPerUnit = w4, total = spec_totalWeight w4 L\<rparr>"
    using square_v2_shape by blast
  moreover obtain w5 where "\<forall>L. result pipeType unit od side width height thickness L =
     \<lparr>ok3 = spec_valid (normalized_v3 pipeType unit od side width height thickness),
      wPerM = w5, total3 = spec_totalWeight w5 L\<rparr>"
    using result_shape by blast
  ultimately show ?thesis by simp
qed

text \<open>
  The theorem at 2 inch by 0.1 inch over 20 ft, and at a 50 by 2 square with an empty
  length field (zero), 6 m, a negative length and an infinite one.
\<close>

theorem total_weight_rule_witness:
  "round_v1 (Fin 2) (Fin 0.1) (Fin 20) Ft
     = \<lparr>ok = True, unitLabel = ''kg/ft'', wPerUnit = Fin 2.0311, total = Fin 40.622\<rparr>
   \<and> total3 (result Square Mm NaN (Fin 50) NaN NaN (Fin 2) (Fin 0)) = NaN
   \<and> wPerM (result Square Mm NaN (Fin 50) NaN NaN (Fin 2) (Fin 0)) = Fin 3.0144
   \<and> total3 (result Square Mm NaN (Fin 50) NaN NaN (Fin 2) (Fin 6)) = Fin 18.0864
   \<and> total3 (result Square Mm NaN (Fin 50) NaN NaN (Fin 2) (Fin (- 6))) = NaN
   \<and> total3 (result Square Mm NaN (Fin 50) NaN NaN (Fin 2) PInf) = NaN"
proof -
  have w1: "wPerUnit (round_v1 (Fin 2) (Fin 0.1) (Fin 20) Ft) = Fin 2.0311"
    and "ok (round_v1 (Fin 2) (Fin 0.1) (Fin 20) Ft)"
    and "unitLabel (round_v1 (Fin 2) (Fin 0.1) (Fin 20) Ft) = ''kg/ft''"
    by (simp_all add: round_v1_accept)
  moreover have w3: "wPerM (result Square Mm NaN (Fin 50) NaN NaN (Fin 2) L) = Fin 3.0144" for L
    by (simp add: result_square_accept [where S = 50 and T = 2])
  moreover note total_weight_rule [where odIn = "Fin 2" and thIn = "Fin 0.1" and L = "Fin 20" and runUnit = Ft]
    total_weight_rule [where pipeType = Square and unit = Mm and side = "Fin 50" and thickness = "Fin 2"
      and od = NaN and width = NaN and height = NaN and L = "Fin 0"]
    total_weight_rule [where pipeType = Square and unit = Mm and side = "Fin 50" and thickness = "Fin 2"
      and od = NaN and width = NaN and height = NaN and L = "Fin 6"]
    total_weight_rule [where pipeType = Square and unit = Mm and side = "Fin 50" and thickness = "Fin 2"
      and od = NaN and width = NaN and height = NaN and L = "Fin (- 6)"]
    total_weight_rule [where pipeType = Square and unit = Mm and side = "Fin 50" and thickness = "Fin 2"
      and od = NaN and width = NaN and height = NaN and L = PInf]
  ultimately show ?thesis
    by (cases "round_v1 (Fin 2) (Fin 0.1) (Fin 20) Ft") (simp add: spec_totalWeight_def)
qed

subsection \<open>C5: the square and rectangle shortcuts\<close>

text \<open>
  C5. For thickness \<open>T > 0\<close>, side \<open>S > 2T\<close>, width \<open>W > 2T\<close> and height \<open>H > 2T\<close> in
  millimetres, the per-metre shortcuts \<open>4 T (S - T) 7.85 / 1000\<close> and
  \<open>2 T ((W + H) - 2T) 7.85 / 1000\<close> equal the exact-geometry values
  \<open>(S\<^sup>2 - (S - 2T)\<^sup>2) 1000 (7.85 / 10\<^sup>6)\<close> and
  \<open>(W H - (W - 2T)(H - 2T)) 1000 (7.85 / 10\<^sup>6)\<close>; so what the first and third versions
  return is what the specification's area and weight formulas, and the second version's
  area and weight functions, give.
\<close>

theorem shortcut_equals_exact_geometry:
  assumes "0 < T" "2 * T < S" "2 * T < W" "2 * T < H"
  shows "4 * T * (S - T) * 7.85 / 1000 = (S\<^sup>2 - (S - 2 * T)\<^sup>2) * 1000 * (7.85 / 10 ^ 6)
       \<and> 2 * T * ((W + H) - 2 * T) * 7.85 / 1000
           = (W * H - (W - 2 * T) * (H - 2 * T)) * 1000 * (7.85 / 10 ^ 6)
       \<and> wPerM (result Square Mm od (Fin S) width height (Fin T) L)
           = Fin (spec_weightPerRunUnit (spec_areaSquare S T) M)
       \<and> wPerM (result Rectangle Mm od side (Fin W) (Fin H) (Fin T) L)
           = Fin (spec_weightPerRunUnit (spec_areaRectangle W H T) M)
       \<and> wPerUnit (square_v1 (Fin S) (Fin T) L)
           = Fin (spec_weightPerRunUnit (spec_areaSquare S T) M)
       \<and> wPerM (result Square Mm od (Fin S) width height (Fin T) L)
           = kgPerUnitFromArea (areaSquareTubeMm2 (Fin S) (Fin T)) M"
proof -
  have "kgPerUnitFromArea (areaSquareTubeMm2 (Fin S) (Fin T)) M
      = Fin (spec_weightPerRunUnit (spec_areaSquare S T) M)"
    using assms
    by (simp add: kgPerUnitFromArea_def areaSquareTubeMm2_def M_TO_MM_def
        STEEL_DENSITY_KG_PER_MM3_def spec_weightPerRunUnit_def spec_areaSquare_def
        spec_lengthFactorMm_def spec_density_def power2_eq_square)
  moreover have "wPerM (result Square Mm od (Fin S) width height (Fin T) L)
      = Fin (spec_weightPerRunUnit (spec_areaSquare S T) M)"
    using assms by (simp add: result_square_accept spec_square_weight_metre)
  moreover have "wPerM (result Rectangle Mm od side (Fin W) (Fin H) (Fin T) L)
      = Fin (spec_weightPerRunUnit (spec_areaRectangle W H T) M)"
    using assms by (simp add: result_rectangle_accept spec_rectangle_weight_metre)
  moreover have "wPerUnit (square_v1 (Fin S) (Fin T) L)
      = Fin (spec_weightPerRunUnit (spec_areaSquare S T) M)"
    using assms by (simp add: square_v1_accept spec_square_weight_metre)
  moreover have "4 * T * (S - T) * 7.85 / 1000 = (S\<^sup>2 - (S - 2 * T)\<^sup>2) * 1000 * (7.85 / 10 ^ 6)"
    unfolding square_difference by simp
  moreover have "2 * T * ((W + H) - 2 * T) * 7.85 / 1000
           = (W * H - (W - 2 * T) * (H - 2 * T)) * 1000 * (7.85 / 10 ^ 6)"
    unfolding rectangle_difference by simp
  ultimately show ?thesis by simp
qed

text \<open>The theorem at a 50 by 2 square and a 40 by 20 by 2 rectangle.\<close>

theorem shortcut_equals_exact_geometry_witness:
  "(0::real) < 2 \<and> (2::real) * 2 < 50 \<and> (2::real) * 2 < 40 \<and> (2::real) * 2 < 20
   \<and> wPerM (result Square Mm NaN (Fin 50) NaN NaN (Fin 2) NaN)
       = Fin ((50\<^sup>2 - 46\<^sup>2) * (7.85 / 10 ^ 6) * 1000)
   \<and> wPerM (result Rectangle Mm NaN NaN (Fin 40) (Fin 20) (Fin 2) NaN)
       = Fin ((40 * 20 - 36 * 16) * 1000 * (7.85 / 10 ^ 6))"
  using shortcut_equals_exact_geometry [where T = 2 and S = 50 and W = 40 and H = 20
      and od = NaN and side = NaN and width = NaN and height = NaN and L = NaN]
  by (simp add: spec_weightPerRunUnit_def spec_areaSquare_def spec_areaRectangle_def
      spec_lengthFactorMm_def spec_density_def)

subsection \<open>C6: inch inputs\<close>

text \<open>
  C6. Normalising an inch dimension multiplies it by exactly 25.4, before any validity
  check or formula: \<^verbatim>\<open>inchesToMm\<close> in the second version and \<^verbatim>\<open>mm\<close> with the unit
  selector on inches in the third (a millimetre dimension is left as it is, NaN stays
  NaN). So the third version in inches returns what it returns in millimetres on the
  converted dimensions, and the second version returns for an outer diameter in inches
  what its area and weight functions give for the diameter in millimetres; the two weights
  are equal, hence within the relative tolerance \<open>10\<^sup>-\<^sup>9\<close>.
\<close>

theorem inch_normalisation:
  "inchesToMm (Fin x) = Fin (x * 25.4)
   \<and> mm In (Fin x) = Fin (x * 25.4)
   \<and> mm Mm v = v
   \<and> inchesToMm NaN = NaN \<and> mm In NaN = NaN
   \<and> result pipeType In od side width height thickness L
       = result pipeType Mm (mm In (n od)) (mm In (n side)) (mm In (n width)) (mm In (n height))
           (mm In (n thickness)) L
   \<and> (0 < T \<and> 2 * T < odIn * 25.4 \<longrightarrow>
        wPerUnit (round_v2 (Fin odIn) (Fin T) L runUnit)
          = kgPerUnitFromArea (areaRoundMm2 (Fin (odIn * 25.4)) (Fin T)) runUnit
        \<and> within_tolerance (wPerUnit (round_v2 (Fin odIn) (Fin T) L runUnit))
            (kgPerUnitFromArea (areaRoundMm2 (Fin (odIn * 25.4)) (Fin T)) runUnit))"
proof -
  have "within_tolerance (wPerUnit (round_v2 (Fin odIn) (Fin T) L runUnit))
            (kgPerUnitFromArea (areaRoundMm2 (Fin (odIn * 25.4)) (Fin T)) runUnit)"
    if "0 < T" "2 * T < odIn * 25.4"
  proof -
    have "0 \<le> odIn" using that by simp
    then have "isFinite (wPerUnit (round_v2 (Fin odIn) (Fin T) L runUnit))"
      using that by (simp add: round_v2_accept [where OD = "odIn * 25.4" and T = T])
    then show ?thesis
      using round_v2_as_mm [OF that] by (auto simp: isFinite_iff)
  qed
  then show ?thesis
    using result_inch_as_mm [of pipeType od side width height thickness L]
    by (auto simp: round_v2_as_mm)
qed

text \<open>
  The theorem at an outer diameter of 2 inch, that is 50.8 mm, and a thickness of 2 mm,
  that is 2 / 25.4 inch.
\<close>

theorem inch_normalisation_witness:
  "wPerUnit (round_v2 (Fin 2) (Fin 2) NaN M)
      = kgPerUnitFromArea (areaRoundMm2 (Fin 50.8) (Fin 2)) M
   \<and> within_tolerance (wPerUnit (round_v2 (Fin 2) (Fin 2) NaN M))
        (kgPerUnitFromArea (areaRoundMm2 (Fin 50.8) (Fin 2)) M)
   \<and> result Round In (Fin 2) NaN NaN NaN (Fin (2 / 25.4)) NaN
      = result Round Mm (Fin 50.8) NaN NaN NaN (Fin 2) NaN
   \<and> inchesToMm (Fin 2) = Fin 50.8 \<and> mm In (Fin 2) = Fin 50.8"
  using inch_normalisation [where T = 2 and odIn = 2 and x = 2 and runUnit = M and L = NaN
      and pipeType = Round and od = "Fin 2" and thickness = "Fin (2 / 25.4)"
      and side = NaN and width = NaN and height = NaN]
  by (simp add: kgPerUnitFromArea_def areaRoundMm2_def Math_PI_def M_TO_MM_def
      STEEL_DENSITY_KG_PER_MM3_def)

subsection \<open>C7: weight per foot against weight per metre\<close>

text \<open>
  C7 says that the weight per foot times \<open>1 / 0.3048\<close> is the weight per metre. The second
  version does that exactly (\<open>round_v2_foot_metre\<close>, \<open>square_v2_foot_metre\<close>). The first
  version does not: at 2 inch by 0.1 inch it returns 2.0311 kg/ft and 4.6854 kg/m, and
  2.0311 / 0.3048 is more than 1.42 times 4.6854.
\<close>

theorem v1_foot_metre_mismatch:
  "round_v1 (Fin 2) (Fin 0.1) (Fin 0) Ft
     = \<lparr>ok = True, unitLabel = ''kg/ft'', wPerUnit = Fin 2.0311, total = NaN\<rparr>
   \<and> round_v1 (Fin 2) (Fin 0.1) (Fin 0) M
     = \<lparr>ok = True, unitLabel = ''kg/m'', wPerUnit = Fin 4.6854, total = NaN\<rparr>
   \<and> \<not> within_tolerance (wPerUnit (round_v1 (Fin 2) (Fin 0.1) (Fin 0) Ft) * Fin (1 / 0.3048))
         (wPerUnit (round_v1 (Fin 2) (Fin 0.1) (Fin 0) M))
   \<and> wPerUnit (round_v1 (Fin 2) (Fin 0.1) (Fin 0) Ft) * Fin (1 / 0.3048)
       > Fin 1.42 * wPerUnit (round_v1 (Fin 2) (Fin 0.1) (Fin 0) M)"
  by (simp add: round_v1_accept spec_totalWeight_def)

subsection \<open>C8: the NaN sentinel\<close>

text \<open>
  C8, as amended. In the first and second version a value that is not a finite nonnegative
  number (a negative one too) becomes NaN. In the third version a value that is not finite
  becomes NaN and a negative finite value is passed on unchanged; every result is then
  the one NaN would give: a negative dimension gives the invalid result and a negative
  length a NaN total. NaN is not zero, every arithmetic operation on NaN gives NaN and
  every comparison with NaN is false.
\<close>

theorem parse_sentinel:
  "clampNonNegative (num x) = (case x of Fin r \<Rightarrow> if 0 \<le> r then Fin r else NaN | _ \<Rightarrow> NaN)
   \<and> n x = (case x of Fin r \<Rightarrow> Fin r | _ \<Rightarrow> NaN)
   \<and> (r < 0 \<longrightarrow>
        result pipeType unit od side width height (Fin r) L
          = result pipeType unit od side width height NaN L
      \<and> result Round unit (Fin r) side width height thickness L
          = result Round unit NaN side width height thickness L
      \<and> result Square unit od (Fin r) width height thickness L
          = result Square unit od NaN width height thickness L
      \<and> result Rectangle unit od side (Fin r) height thickness L
          = result Rectangle unit od side NaN height thickness L
      \<and> result Rectangle unit od side width (Fin r) thickness L
          = result Rectangle unit od side width NaN thickness L
      \<and> result pipeType unit od side width height thickness (Fin r)
          = result pipeType unit od side width height thickness NaN)
   \<and> NaN \<noteq> Fin 0
   \<and> NaN * y = NaN \<and> y * NaN = NaN \<and> NaN + y = NaN \<and> y + NaN = NaN
   \<and> NaN - y = NaN \<and> y - NaN = NaN \<and> NaN / y = NaN \<and> y / NaN = NaN
   \<and> \<not> NaN > y \<and> \<not> y > NaN \<and> \<not> NaN \<ge> y \<and> \<not> y \<ge> NaN"
proof -
  have "clampNonNegative (num x) = (case x of Fin r \<Rightarrow> if 0 \<le> r then Fin r else NaN | _ \<Rightarrow> NaN)"
    by (cases x) simp_all
  moreover have "n x = (case x of Fin r \<Rightarrow> Fin r | _ \<Rightarrow> NaN)"
    by (cases x) simp_all
  moreover have "NaN * y = NaN \<and> y * NaN = NaN \<and> NaN + y = NaN \<and> y + NaN = NaN
   \<and> NaN - y = NaN \<and> y - NaN = NaN \<and> NaN / y = NaN \<and> y / NaN = NaN
   \<and> \<not> NaN > y \<and> \<not> y > NaN \<and> \<not> NaN \<ge> y \<and> \<not> y \<ge> NaN"
    by (cases y) simp_all
  ultimately show ?thesis
    by (simp add: negative_thickness nan_thickness negative_outer negative_length)
qed

text \<open>The theorem at the value \<open>-5\<close>, at infinity and at zero.\<close>

theorem parse_sentinel_witness:
  "clampNonNegative (num (Fin (- 5))) = NaN
   \<and> clampNonNegative (num PInf) = NaN
   \<and> clampNonNegative (num (Fin 0)) = Fin 0
   \<and> n (Fin (- 5)) = Fin (- 5)
   \<and> result Round Mm (Fin 50.8) NaN NaN NaN (Fin (- 5)) (Fin 6)
       = result Round Mm (Fin 50.8) NaN NaN NaN NaN (Fin 6)
   \<and> result Round Mm (Fin 50.8) NaN NaN NaN (Fin 2) (Fin (- 5))
       = result Round Mm (Fin 50.8) NaN NaN NaN (Fin 2) NaN"
  using parse_sentinel [where x = "Fin (- 5)" and r = "- 5" and pipeType = Round and unit = Mm
      and od = "Fin 50.8" and side = NaN and width = NaN and height = NaN and L = "Fin 6"
      and thickness = "Fin 2"]
    parse_sentinel [where x = PInf] parse_sentinel [where x = "Fin 0"]
  by simp

text \<open>
  C8 as stated fails on the third version: \<open>-5\<close> is not a finite nonnegative number, and
  \<^verbatim>\<open>n\<close> does not return NaN for it.
\<close>

theorem n_keeps_negative:
  "n (Fin (- 5)) \<noteq> NaN \<and> \<not> (0 \<le> (- 5 :: real))"
  by simp

subsection \<open>C9: monotonicity\<close>

text \<open>
  C9, as the code has it. With every operation rounded, a larger outer dimension never
  gives a smaller weight in the first and the third version: for a thickness and two
  values \<open>a \<le> b\<close> of the diameter, the side, the width or the height, if the result at
  \<open>a\<close> is valid then so is the result at \<open>b\<close>, and the weight per unit at \<open>a\<close> is at most the
  weight at \<open>b\<close> (an infinite weight included). In the second version the weight never
  decreases when the area increases. The increase is not strict, and the area of the
  second version, a difference of two rounded squares, is not monotone at all: see the
  counterexample below.
\<close>

theorem weight_never_decreases:
  assumes "is_double (Fin a)" "is_double thickness" "a \<le> b"
  shows "(ok3 (result_fp Round unit (Fin a) side width height thickness L) \<longrightarrow>
            ok3 (result_fp Round unit (Fin b) side width height thickness L)
            \<and> wPerM (result_fp Round unit (Fin a) side width height thickness L)
                \<le> wPerM (result_fp Round unit (Fin b) side width height thickness L))
       \<and> (ok3 (result_fp Square unit od (Fin a) width height thickness L) \<longrightarrow>
            ok3 (result_fp Square unit od (Fin b) width height thickness L)
            \<and> wPerM (result_fp Square unit od (Fin a) width height thickness L)
                \<le> wPerM (result_fp Square unit od (Fin b) width height thickness L))
       \<and> (ok3 (result_fp Rectangle unit od side (Fin a) height thickness L) \<longrightarrow>
            ok3 (result_fp Rectangle unit od side (Fin b) height thickness L)
            \<and> wPerM (result_fp Rectangle unit od side (Fin a) height thickness L)
                \<le> wPerM (result_fp Rectangle unit od side (Fin b) height thickness L))
       \<and> (ok3 (result_fp Rectangle unit od side width (Fin a) thickness L) \<longrightarrow>
            ok3 (result_fp Rectangle unit od side width (Fin b) thickness L)
            \<and> wPerM (result_fp Rectangle unit od side width (Fin a) thickness L)
                \<le> wPerM (result_fp Rectangle unit od side width (Fin b) thickness L))
       \<and> (ok (round_v1_fp (Fin a) thickness L runUnit) \<longrightarrow>
            ok (round_v1_fp (Fin b) thickness L runUnit)
            \<and> wPerUnit (round_v1_fp (Fin a) thickness L runUnit)
                \<le> wPerUnit (round_v1_fp (Fin b) thickness L runUnit))
       \<and> (ok (square_v1_fp (Fin a) thickness L) \<longrightarrow>
            ok (square_v1_fp (Fin b) thickness L)
            \<and> wPerUnit (square_v1_fp (Fin a) thickness L)
                \<le> wPerUnit (square_v1_fp (Fin b) thickness L))
       \<and> (A \<le> B \<longrightarrow> kgPerUnitFromArea_fp A runUnit \<le> kgPerUnitFromArea_fp B runUnit)"
proof (intro conjI impI)
  assume v: "ok3 (result_fp Round unit (Fin a) side width height thickness L)"
  show "ok3 (result_fp Round unit (Fin b) side width height thickness L)"
    "wPerM (result_fp Round unit (Fin a) side width height thickness L)
       \<le> wPerM (result_fp Round unit (Fin b) side width height thickness L)"
    using result_fp_round_mono [OF assms(2,3) v] by simp_all
next
  assume v: "ok3 (result_fp Square unit od (Fin a) width height thickness L)"
  show "ok3 (result_fp Square unit od (Fin b) width height thickness L)"
    "wPerM (result_fp Square unit od (Fin a) width height thickness L)
       \<le> wPerM (result_fp Square unit od (Fin b) width height thickness L)"
    using result_fp_square_mono [OF assms(2,1,3) v] by simp_all
next
  assume v: "ok3 (result_fp Rectangle unit od side (Fin a) height thickness L)"
  show "ok3 (result_fp Rectangle unit od side (Fin b) height thickness L)"
    "wPerM (result_fp Rectangle unit od side (Fin a) height thickness L)
       \<le> wPerM (result_fp Rectangle unit od side (Fin b) height thickness L)"
    using result_fp_rectangle_mono_width [OF assms(2,3) v] by simp_all
next
  assume v: "ok3 (result_fp Rectangle unit od side width (Fin a) thickness L)"
  show "ok3 (result_fp Rectangle unit od side width (Fin b) thickness L)"
    "wPerM (result_fp Rectangle unit od side width (Fin a) thickness L)
       \<le> wPerM (result_fp Rectangle unit od side width (Fin b) thickness L)"
    using result_fp_rectangle_mono_height [OF assms(2,3) v] by simp_all
next
  assume v: "ok (round_v1_fp (Fin a) thickness L runUnit)"
  show "ok (round_v1_fp (Fin b) thickness L runUnit)"
    "wPerUnit (round_v1_fp (Fin a) thickness L runUnit)
       \<le> wPerUnit (round_v1_fp (Fin b) thickness L runUnit)"
    using round_v1_fp_mono [OF assms(3) v] by simp_all
next
  assume v: "ok (square_v1_fp (Fin a) thickness L)"
  show "ok (square_v1_fp (Fin b) thickness L)"
    "wPerUnit (square_v1_fp (Fin a) thickness L) \<le> wPerUnit (square_v1_fp (Fin b) thickness L)"
    using square_v1_fp_mono [OF assms(1,2,3) v] by simp_all
next
  assume "A \<le> B"
  then show "kgPerUnitFromArea_fp A runUnit \<le> kgPerUnitFromArea_fp B runUnit"
    by (rule kgPerUnitFromArea_fp_mono)
qed

text \<open>
  The theorem at thickness 2 and outer diameters 50 and 60, millimetres in the third
  version and inches in the first, and at the areas 50 and 60.
\<close>

theorem weight_never_decreases_witness:
  "is_double (Fin 50) \<and> is_double (Fin 2) \<and> (50::real) \<le> 60
   \<and> ok3 (result_fp Round Mm (Fin 50) (Fin 0) (Fin 0) (Fin 0) (Fin 2) (Fin 0))
   \<and> ok3 (result_fp Round Mm (Fin 60) (Fin 0) (Fin 0) (Fin 0) (Fin 2) (Fin 0))
   \<and> wPerM (result_fp Round Mm (Fin 50) (Fin 0) (Fin 0) (Fin 0) (Fin 2) (Fin 0))
       \<le> wPerM (result_fp Round Mm (Fin 60) (Fin 0) (Fin 0) (Fin 0) (Fin 2) (Fin 0))
   \<and> ok (round_v1_fp (Fin 50) (Fin 2) (Fin 0) Ft)
   \<and> ok (round_v1_fp (Fin 60) (Fin 2) (Fin 0) Ft)
   \<and> wPerUnit (round_v1_fp (Fin 50) (Fin 2) (Fin 0) Ft)
       \<le> wPerUnit (round_v1_fp (Fin 60) (Fin 2) (Fin 0) Ft)
   \<and> Fin 50 \<le> Fin 60
   \<and> kgPerUnitFromArea_fp (Fin 50) Ft \<le> kgPerUnitFromArea_fp (Fin 60) Ft"
proof -
  have d: "is_double (Fin 50)" "is_double (Fin 2)"
    using is_double_of_int [of 50] is_double_of_int [of 2] by simp_all
  have le: "(50::real) \<le> 60" by simp
  have "fmul (dbl 2) (Fin 2) = Fin 4" by (simp add: fmul_Fin)
  then have v3: "ok3 (result_fp Round Mm (Fin 50) (Fin 0) (Fin 0) (Fin 0) (Fin 2) (Fin 0))"
    by (simp add: result_fp_round_ok mm_fp_Mm)
  have v1: "ok (round_v1_fp (Fin 50) (Fin 2) (Fin 0) Ft)"
    by (rule round_v1_fp_accept(1)) simp_all
  have ar: "Fin 50 \<le> Fin 60" by simp
  show ?thesis
    using d le v3 v1 ar
      weight_never_decreases [OF d le, where unit = Mm and side = "Fin 0" and width = "Fin 0"
        and height = "Fin 0" and L = "Fin 0" and runUnit = Ft and A = "Fin 50" and B = "Fin 60"]
    by blast
qed

text \<open>
  Why the increase is not strict, and why the second version is left out. In the second
  version a square tube of 4 inch with a wall of 1 mm weighs more per metre than one of
  4.000000000000001 inch, and the area of a square tube of 1000000015 mm with a wall of
  1 mm is more than that of one of 1000000016 mm. In the third version round tubes of
  111.2 mm and 111.20000000000002 mm with a wall of 2 mm have the same weight.
\<close>

theorem weight_decreases_by_rounding:
  "ok (square_v2_fp (Fin 4) (Fin 1) (Fin 0) M)
   \<and> ok (square_v2_fp (dbl 4.000000000000001) (Fin 1) (Fin 0) M)
   \<and> Fin 4 < dbl 4.000000000000001
   \<and> wPerUnit (square_v2_fp (dbl 4.000000000000001) (Fin 1) (Fin 0) M)
       < wPerUnit (square_v2_fp (Fin 4) (Fin 1) (Fin 0) M)
   \<and> areaSquareTubeMm2_fp (Fin 1000000016) (Fin 1) < areaSquareTubeMm2_fp (Fin 1000000015) (Fin 1)
   \<and> ok3 (result_fp Round Mm (dbl 111.2) (Fin 0) (Fin 0) (Fin 0) (Fin 2) (Fin 0))
   \<and> ok3 (result_fp Round Mm (dbl 111.20000000000002) (Fin 0) (Fin 0) (Fin 0) (Fin 2) (Fin 0))
   \<and> dbl 111.2 < dbl 111.20000000000002
   \<and> wPerM (result_fp Round Mm (dbl 111.2) (Fin 0) (Fin 0) (Fin 0) (Fin 2) (Fin 0))
       = wPerM (result_fp Round Mm (dbl 111.20000000000002) (Fin 0) (Fin 0) (Fin 0) (Fin 2) (Fin 0))"
proof -
  have "Fin 4 < dbl 4.000000000000001"
    unfolding square_v2_fp_above_4(3) by simp
  moreover have "wPerUnit (square_v2_fp (dbl 4.000000000000001) (Fin 1) (Fin 0) M)
       < wPerUnit (square_v2_fp (Fin 4) (Fin 1) (Fin 0) M)"
    unfolding square_v2_fp_at_4(2) square_v2_fp_above_4(2) by simp
  moreover have "areaSquareTubeMm2_fp (Fin 1000000016) (Fin 1)
      < areaSquareTubeMm2_fp (Fin 1000000015) (Fin 1)"
    unfolding area_at_1000000015 area_at_1000000016 by simp
  moreover have "dbl 111.2 < dbl 111.20000000000002"
    unfolding result_fp_at_111(3) result_fp_above_111(3) by simp
  moreover have "wPerM (result_fp Round Mm (dbl 111.2) (Fin 0) (Fin 0) (Fin 0) (Fin 2) (Fin 0))
       = wPerM (result_fp Round Mm (dbl 111.20000000000002) (Fin 0) (Fin 0) (Fin 0) (Fin 2) (Fin 0))"
    unfolding result_fp_at_111(2) result_fp_above_111(2) by (rule refl)
  ultimately show ?thesis
    using square_v2_fp_at_4(1) square_v2_fp_above_4(1) result_fp_at_111(1) result_fp_above_111(1) by blast
qed

subsection \<open>C10: the weight of a valid result\<close>

text \<open>
  C10, as the code has it. Whenever a version reports its result valid, on inputs that
  are doubles, the weight per unit is never a negative number and never minus infinity.
  In the first and the third version it is a finite number \<open>\<ge> 0\<close> or plus infinity, never
  NaN; in the second version it is one of these or NaN. When every dimension of the
  selected shape is of ordinary size, between \<open>2\<^sup>-\<^sup>2\<^sup>5\<^sup>6\<close> and \<open>2\<^sup>2\<^sup>5\<^sup>6\<close>, the weight of a valid
  result is finite and strictly positive in the first and the third version, as the claim
  has it, and finite and \<open>\<ge> 0\<close> in the second. Zero, infinity and NaN do occur otherwise,
  and zero occurs in the second version for dimensions of ordinary size: see the
  counterexample below.
\<close>

theorem weight_of_valid_result:
  assumes "is_double odIn" "is_double thIn" "is_double sideIn" "is_double thMm"
    and "is_double od" "is_double side" "is_double width" "is_double height"
    and "is_double thickness"
  shows "(ok (round_v1_fp odIn thIn L runUnit) \<longrightarrow>
            Fin 0 \<le> wPerUnit (round_v1_fp odIn thIn L runUnit))
       \<and> (ok (square_v1_fp sideIn thMm L) \<longrightarrow>
            Fin 0 \<le> wPerUnit (square_v1_fp sideIn thMm L))
       \<and> (ok (round_v2_fp odIn thMm L runUnit) \<longrightarrow>
            wPerUnit (round_v2_fp odIn thMm L runUnit) = NaN
            \<or> Fin 0 \<le> wPerUnit (round_v2_fp odIn thMm L runUnit))
       \<and> (ok (square_v2_fp sideIn thMm L runUnit) \<longrightarrow>
            wPerUnit (square_v2_fp sideIn thMm L runUnit) = NaN
            \<or> Fin 0 \<le> wPerUnit (square_v2_fp sideIn thMm L runUnit))
       \<and> (ok3 (result_fp pipeType unit od side width height thickness L) \<longrightarrow>
            Fin 0 \<le> wPerM (result_fp pipeType unit od side width height thickness L))
       \<and> (ordinary odIn \<and> ordinary thIn \<and> ok (round_v1_fp odIn thIn L runUnit) \<longrightarrow>
            (\<exists>y>0. wPerUnit (round_v1_fp odIn thIn L runUnit) = Fin y))
       \<and> (ordinary sideIn \<and> ordinary thMm \<and> ok (square_v1_fp sideIn thMm L) \<longrightarrow>
            (\<exists>y>0. wPerUnit (square_v1_fp sideIn thMm L) = Fin y))
       \<and> (ordinary od \<and> ordinary thickness
            \<and> ok3 (result_fp Round unit od side width height thickness L) \<longrightarrow>
            (\<exists>y>0. wPerM (result_fp Round unit od side width height thickness L) = Fin y))
       \<and> (ordinary side \<and> ordinary thickness
            \<and> ok3 (result_fp Square unit od side width height thickness L) \<longrightarrow>
            (\<exists>y>0. wPerM (result_fp Square unit od side width height thickness L) = Fin y))
       \<and> (ordinary width \<and> ordinary height \<and> ordinary thickness
            \<and> ok3 (result_fp Rectangle unit od side width height thickness L) \<longrightarrow>
            (\<exists>y>0. wPerM (result_fp Rectangle unit od side width height thickness L) = Fin y))
       \<and> (ordinary odIn \<and> ordinary thMm \<and> ok (round_v2_fp odIn thMm L runUnit) \<longrightarrow>
            (\<exists>y\<ge>0. wPerUnit (round_v2_fp odIn thMm L runUnit) = Fin y))
       \<and> (ordinary sideIn \<and> ordinary thMm \<and> ok (square_v2_fp sideIn thMm L runUnit) \<longrightarrow>
            (\<exists>y\<ge>0. wPerUnit (square_v2_fp sideIn thMm L runUnit) = Fin y))"
proof (intro conjI impI)
  show "Fin 0 \<le> wPerUnit (round_v1_fp odIn thIn L runUnit)"
    if "ok (round_v1_fp odIn thIn L runUnit)"
    using that by (rule round_v1_fp_nonneg)
  show "Fin 0 \<le> wPerUnit (square_v1_fp sideIn thMm L)" if "ok (square_v1_fp sideIn thMm L)"
    using assms(3,4) that by (rule square_v1_fp_nonneg)
  show "wPerUnit (round_v2_fp odIn thMm L runUnit) = NaN
      \<or> Fin 0 \<le> wPerUnit (round_v2_fp odIn thMm L runUnit)"
    if "ok (round_v2_fp odIn thMm L runUnit)"
    using assms(4) that by (rule round_v2_fp_nn)
  show "wPerUnit (square_v2_fp sideIn thMm L runUnit) = NaN
      \<or> Fin 0 \<le> wPerUnit (square_v2_fp sideIn thMm L runUnit)"
    if "ok (square_v2_fp sideIn thMm L runUnit)"
    using assms(4) that by (rule square_v2_fp_nn)
  show "Fin 0 \<le> wPerM (result_fp pipeType unit od side width height thickness L)"
    if "ok3 (result_fp pipeType unit od side width height thickness L)"
    using assms(5-9) that by (rule result_fp_nonneg)
  show "\<exists>y>0. wPerUnit (round_v1_fp odIn thIn L runUnit) = Fin y"
    if "ordinary odIn \<and> ordinary thIn \<and> ok (round_v1_fp odIn thIn L runUnit)"
    using that by (intro round_v1_fp_ordinary) simp_all
  show "\<exists>y>0. wPerUnit (square_v1_fp sideIn thMm L) = Fin y"
    if "ordinary sideIn \<and> ordinary thMm \<and> ok (square_v1_fp sideIn thMm L)"
    using that by (intro square_v1_fp_ordinary) simp_all
  show "\<exists>y>0. wPerM (result_fp Round unit od side width height thickness L) = Fin y"
    if "ordinary od \<and> ordinary thickness
        \<and> ok3 (result_fp Round unit od side width height thickness L)"
    using that by (intro result_fp_ordinary) simp_all
  show "\<exists>y>0. wPerM (result_fp Square unit od side width height thickness L) = Fin y"
    if "ordinary side \<and> ordinary thickness
        \<and> ok3 (result_fp Square unit od side width height thickness L)"
    using that by (intro result_fp_ordinary) simp_all
  show "\<exists>y>0. wPerM (result_fp Rectangle unit od side width height thickness L) = Fin y"
    if "ordinary width \<and> ordinary height \<and> ordinary thickness
        \<and> ok3 (result_fp Rectangle unit od side width height thickness L)"
    using that by (intro result_fp_ordinary) simp_all
  show "\<exists>y\<ge>0. wPerUnit (round_v2_fp odIn thMm L runUnit) = Fin y"
    if "ordinary odIn \<and> ordinary thMm \<and> ok (round_v2_fp odIn thMm L runUnit)"
    using that by (intro round_v2_fp_ordinary) simp_all
  show "\<exists>y\<ge>0. wPerUnit (square_v2_fp sideIn thMm L runUnit) = Fin y"
    if "ordinary sideIn \<and> ordinary thMm \<and> ok (square_v2_fp sideIn thMm L runUnit)"
    using that by (intro square_v2_fp_ordinary) simp_all
qed

text \<open>
  The theorem at 2 inch by 1 inch in the first version, at 2 inch by 1 mm in the second
  and at an 8 by 8 by 1 inch rectangle in the third.
\<close>

theorem weight_of_valid_result_witness:
  "ordinary (Fin 8) \<and> ordinary (Fin 2) \<and> ordinary (Fin 1) \<and> is_double (Fin 0)
   \<and> ok (round_v1_fp (Fin 2) (Fin 1) (Fin 0) M)
   \<and> Fin 0 \<le> wPerUnit (round_v1_fp (Fin 2) (Fin 1) (Fin 0) M)
   \<and> (\<exists>y>0. wPerUnit (round_v1_fp (Fin 2) (Fin 1) (Fin 0) M) = Fin y)
   \<and> ok3 (result_fp Rectangle In (Fin 0) (Fin 0) (Fin 8) (Fin 8) (Fin 1) (Fin 0))
   \<and> Fin 0 \<le> wPerM (result_fp Rectangle In (Fin 0) (Fin 0) (Fin 8) (Fin 8) (Fin 1) (Fin 0))
   \<and> (\<exists>y>0. wPerM (result_fp Rectangle In (Fin 0) (Fin 0) (Fin 8) (Fin 8) (Fin 1) (Fin 0))
          = Fin y)
   \<and> ok (round_v2_fp (Fin 2) (Fin 1) (Fin 0) M)
   \<and> (\<exists>y\<ge>0. wPerUnit (round_v2_fp (Fin 2) (Fin 1) (Fin 0) M) = Fin y)"
proof -
  have d: "is_double (Fin 8)" "is_double (Fin 2)" "is_double (Fin 1)" "is_double (Fin 0)"
    using is_double_of_int [of 8] is_double_of_int [of 2] is_double_of_int [of 1]
      is_double_of_int [of 0] by simp_all
  have o: "ordinary (Fin 8)" "ordinary (Fin 2)" "ordinary (Fin 1)"
    using d by (simp_all add: ordinary_def)
  have v1: "ok (round_v1_fp (Fin 2) (Fin 1) (Fin 0) M)"
    by (rule round_v1_fp_accept(1)) simp_all
  have c: "between 4 5 IN_TO_MM_fp" by (rule between_lits)
  have t: "between 4 5 (fmul (Fin 1) IN_TO_MM_fp)"
    using between_fmul [where a = 0 and b = 0 and u = "Fin 1", OF _ c] by simp
  have t2: "between 5 6 (fmul (Fin 2) (fmul (Fin 1) IN_TO_MM_fp))"
    using between_fmul [OF between_lits(6) t] by simp
  have w: "between 7 8 (fmul (Fin 8) IN_TO_MM_fp)"
    using between_fmul [where a = 3 and b = 3 and u = "Fin 8", OF _ c] by simp
  have v3: "ok3 (result_fp Rectangle In (Fin 0) (Fin 0) (Fin 8) (Fin 8) (Fin 1) (Fin 0))"
    unfolding result_fp_rectangle_ok
    using between_gt0 [OF t] between_less [OF t2 w] by (simp add: mm_fp_def)
  have m: "between 5 6 (inchesToMm_fp (Fin 2))"
    unfolding inchesToMm_fp_def using between_fmul [OF between_lits(6) c] by simp
  then obtain p where p: "inchesToMm_fp (Fin 2) = Fin p" by (auto simp: between_iff)
  have "Fin 2 < Fin p"
    using between_less [OF between_lits(6) m] unfolding p by simp
  then have "fmul (dbl 2) (Fin 1) < Fin p" by (simp add: fmul_Fin)
  then have v2: "ok (round_v2_fp (Fin 2) (Fin 1) (Fin 0) M)"
    by (intro round_v2_fp_accept(1) [OF _ p]) simp_all
  show ?thesis
    using d(4) o v1 v2 v3
      weight_of_valid_result [OF d(2,3,4,3,4,4,1,1,3), where L = "Fin 0" and runUnit = M
        and pipeType = Rectangle and unit = In]
    by blast
qed

text \<open>
  The weight of a valid result can be infinite, zero or NaN. The first and the third
  version at 1e200 by 1e150 return a valid result with an infinite weight, the third at
  1e-200 by 1e-250 one with the weight zero; the second version returns a valid result
  with the weight NaN at 1e200 inch by 1 mm and with the weight zero at 2 inch by
  1e-15 mm.
\<close>

theorem valid_weight_zero_infinite_nan:
  "ok3 (result_fp Round Mm (dbl (10 ^ 200)) (Fin 0) (Fin 0) (Fin 0) (dbl (10 ^ 150)) (Fin 0))
   \<and> wPerM (result_fp Round Mm (dbl (10 ^ 200)) (Fin 0) (Fin 0) (Fin 0) (dbl (10 ^ 150)) (Fin 0))
       = PInf
   \<and> ok (round_v1_fp (dbl (10 ^ 200)) (dbl (10 ^ 150)) (Fin 0) Ft)
   \<and> wPerUnit (round_v1_fp (dbl (10 ^ 200)) (dbl (10 ^ 150)) (Fin 0) Ft) = PInf
   \<and> ok3 (result_fp Round Mm (dbl (1 / 10 ^ 200)) (Fin 0) (Fin 0) (Fin 0) (dbl (1 / 10 ^ 250))
          (Fin 0))
   \<and> wPerM (result_fp Round Mm (dbl (1 / 10 ^ 200)) (Fin 0) (Fin 0) (Fin 0) (dbl (1 / 10 ^ 250))
          (Fin 0)) = Fin 0
   \<and> ok (round_v2_fp (dbl (10 ^ 200)) (Fin 1) (Fin 0) Ft)
   \<and> wPerUnit (round_v2_fp (dbl (10 ^ 200)) (Fin 1) (Fin 0) Ft) = NaN
   \<and> ok (round_v2_fp (Fin 2) (dbl (1 / 10 ^ 15)) (Fin 0) Ft)
   \<and> wPerUnit (round_v2_fp (Fin 2) (dbl (1 / 10 ^ 15)) (Fin 0) Ft) = Fin 0"
  by (intro conjI result_fp_overflow round_v1_fp_overflow result_fp_underflow round_v2_fp_nan
      round_v2_fp_zero)

end
